theory Spec2Isabelle
  imports Complex_Main "HOL-Library.Log_Nat" "HOL-Library.AList"
begin

section \<open>Python values used by \<open>main.py\<close>\<close>

text \<open>
  The module keeps a registry of download jobs (\<open>jobs\<close>, a dict guarded by
  \<open>jobs_lock\<close>), creates a job per \<open>POST /pull\<close>, runs it in a background task
  (\<open>_run_download\<close>) and lets the downloader's progress hook write the progress fields.
  This theory embeds those functions and the parts of Python they rest on.

  Numbers. A progress event carries Python numbers (\<open>int\<close> or finite \<open>float\<close>).
  Each is represented by its exact value, a rational. True division and multiplication
  produce a \<open>float\<close>: the exact result rounded to binary64, nearest, ties to even
  (\<open>round_double\<close>), and a result beyond the largest double is an \<open>OverflowError\<close>
  (raised by the division of two ints and by the conversion of an int, and by
  \<open>int()\<close> on the infinity a float operation gives). An \<open>int\<close> above \<open>2^53\<close> that
  meets a \<open>float\<close> operand is rounded first by Python; byte counts and rates are far
  below that and the model takes the operand exactly.
\<close>

datatype py_exc =
    FileExistsError "string list"
  | FileNotFoundError "string list"
  | NotADirectoryError "string list"
  | KeyError string
  | OverflowError
  | ZeroDivisionError
  | TypeError
  | ImportError string
  | DownloaderError string

definition pow2 :: "int \<Rightarrow> rat" where
  "pow2 k = (if 0 \<le> k then 2 ^ nat k else 1 / 2 ^ nat (- k))"

definition ilog2 :: "rat \<Rightarrow> int" where
  \<comment> \<open>for \<open>0 < q\<close>: the exponent \<open>e\<close> with \<open>2^e \<le> q < 2^(e+1)\<close>\<close>
  "ilog2 q = (if 1 \<le> q then bitlen \<lfloor>q\<rfloor> - 1 else - bitlen (\<lceil>1 / q\<rceil> - 1))"

definition round_half_even :: "rat \<Rightarrow> int" where
  "round_half_even x =
     (let f = \<lfloor>x\<rfloor>; r = x - of_int f
      in if r < 1 / 2 then f
         else if 1 / 2 < r then f + 1
         else if even f then f else f + 1)"

definition round_double :: "rat \<Rightarrow> rat" where
  \<comment> \<open>binary64: 53 significant bits, exponents from \<open>-1022\<close> (subnormals below)\<close>
  "round_double q =
     (if q = 0 then 0
      else let a = \<bar>q\<bar>;
               e = max (ilog2 a) (- 1022);
               u = pow2 (e - 52)
           in sgn q * of_int (round_half_even (a / u)) * u)"

definition float_of :: "rat \<Rightarrow> py_exc + rat" where
  \<comment> \<open>the largest double is below \<open>2^1024\<close>: a rounded value of exponent 1024 or more overflows\<close>
  "float_of q =
     (let r = round_double q
      in if r \<noteq> 0 \<and> 1024 \<le> ilog2 \<bar>r\<bar> then Inl OverflowError else Inr r)"

definition truediv :: "rat \<Rightarrow> rat \<Rightarrow> py_exc + rat" where
  \<comment> \<open>\<open>a / b\<close>\<close>
  "truediv a b = (if b = 0 then Inl ZeroDivisionError else float_of (a / b))"

definition fmul :: "rat \<Rightarrow> rat \<Rightarrow> py_exc + rat" where
  \<comment> \<open>\<open>x * y\<close> with a float operand\<close>
  "fmul x y = float_of (x * y)"

definition py_int :: "rat \<Rightarrow> int" where
  \<comment> \<open>\<open>int(x)\<close>: truncation towards zero\<close>
  "py_int x = (if 0 \<le> x then \<lfloor>x\<rfloor> else \<lceil>x\<rceil>)"

subsection \<open>Strings and number formatting\<close>

text \<open>
  A \<open>str\<close> is a \<open>string\<close>; a character stands for its code point, so the model covers
  the code points below 256. \<open>str.strip()\<close> removes the characters for which
  \<open>str.isspace\<close> holds; \<open>str.lower()\<close> maps the upper-case letters of that range.
\<close>

definition py_isspace :: "char \<Rightarrow> bool" where
  "py_isspace c = (let n = (of_char c :: int) in (9 \<le> n \<and> n \<le> 13) \<or> (28 \<le> n \<and> n \<le> 32) \<or> n = 133 \<or> n = 160)"

definition strip :: "string \<Rightarrow> string" where
  "strip s = rev (dropWhile py_isspace (rev (dropWhile py_isspace s)))"

definition lower_char :: "char \<Rightarrow> char" where
  "lower_char c =
     (let n = (of_char c :: int)
      in if (65 \<le> n \<and> n \<le> 90) \<or> (192 \<le> n \<and> n \<le> 222 \<and> n \<noteq> 215) then char_of (n + 32) else c)"

definition lower :: "string \<Rightarrow> string" where
  "lower s = map lower_char s"

definition startswith :: "string \<Rightarrow> string \<Rightarrow> bool" where
  "startswith s p = (take (length p) s = p)"

definition digit_char :: "int \<Rightarrow> char" where
  "digit_char d = char_of (48 + d)"

function dec_int :: "int \<Rightarrow> string" where
  \<comment> \<open>the decimal digits of \<open>n \<ge> 0\<close>\<close>
  "dec_int n = (if n < 10 then [digit_char n] else dec_int (n div 10) @ [digit_char (n mod 10)])"
  by pat_completeness auto
termination
  by (relation "measure nat") auto

declare dec_int.simps [simp del]

definition zfill :: "nat \<Rightarrow> string \<Rightarrow> string" where
  "zfill w s = replicate (w - length s) CHR ''0'' @ s"

definition fmt_02d :: "int \<Rightarrow> string" where
  \<comment> \<open>\<open>f"{i:02d}"\<close>: the sign counts towards the width\<close>
  "fmt_02d i = (if i < 0 then ''-'' @ zfill 1 (dec_int (- i)) else zfill 2 (dec_int i))"

definition fmt_f :: "nat \<Rightarrow> rat \<Rightarrow> string" where
  \<comment> \<open>\<open>f"{x:.pf}"\<close> of a float \<open>x\<close>: its exact value rounded to \<open>p\<close> decimals, ties to even\<close>
  "fmt_f p x =
     (let n = round_half_even (\<bar>x\<bar> * 10 ^ p);
          ip = n div 10 ^ p;
          fp = n mod 10 ^ p
      in (if x < 0 then ''-'' else []) @ dec_int ip @
         (if p = 0 then [] else ''.'' @ zfill p (dec_int fp)))"

subsection \<open>The progress event and what the hook derives from it\<close>

text \<open>
  The dict \<open>d\<close> the downloader passes to the hook. A field read with \<open>d.get(key)\<close> is
  \<open>None\<close> when the key is absent or holds \<open>None\<close> (\<open>d.get\<close> gives \<open>None\<close> for both).
  \<open>downloaded_bytes\<close> is read with a default, \<open>d.get("downloaded_bytes", 0)\<close>, which
  tells the two apart: the default is taken for an absent key only, and a key that holds
  \<open>None\<close> gives \<open>None\<close>. \<open>ev_title\<close> is \<open>d.get("info_dict", {}).get("title", "")\<close>.
\<close>

datatype dict_entry = Absent | Holds "rat option"

record progress_event =
  ev_status :: "string option"
  total_bytes :: "rat option"
  total_bytes_estimate :: "rat option"
  downloaded_bytes :: dict_entry
  ev_title :: string
  ev_speed :: "rat option"

definition truthy :: "rat option \<Rightarrow> bool" where
  "truthy v = (case v of None \<Rightarrow> False | Some x \<Rightarrow> x \<noteq> 0)"

definition hook_total :: "progress_event \<Rightarrow> rat option" where
  \<comment> \<open>\<open>d.get("total_bytes") or d.get("total_bytes_estimate")\<close>\<close>
  "hook_total d = (if truthy (total_bytes d) then total_bytes d else total_bytes_estimate d)"

definition hook_downloaded :: "progress_event \<Rightarrow> rat option" where
  \<comment> \<open>\<open>d.get("downloaded_bytes", 0)\<close>: a number, or \<open>None\<close> when the key holds \<open>None\<close>\<close>
  "hook_downloaded d = (case downloaded_bytes d of Absent \<Rightarrow> Some 0 | Holds v \<Rightarrow> v)"

definition hook_percent :: "progress_event \<Rightarrow> py_exc + int" where
  \<comment> \<open>\<open>int((downloaded / total) * 100) if total else 0\<close>; \<open>None / total\<close> is a \<open>TypeError\<close>\<close>
  "hook_percent d =
     (if truthy (hook_total d)
      then (case hook_downloaded d of
              None \<Rightarrow> Inl TypeError
            | Some downloaded \<Rightarrow>
                (case truediv downloaded (the (hook_total d)) of
                   Inl e \<Rightarrow> Inl e
                 | Inr x \<Rightarrow> (case fmul x 100 of Inl e \<Rightarrow> Inl e | Inr y \<Rightarrow> Inr (py_int y))))
      else Inr 0)"

definition hook_speed :: "rat option \<Rightarrow> py_exc + string" where
  \<comment> \<open>the \<open>if speed_raw: ... else: speed = ""\<close> block of the hook\<close>
  "hook_speed speed_raw =
     (if truthy speed_raw
      then (let r = the speed_raw
            in if 1024 ^ 3 < r then
                 (case truediv r (1024 ^ 3) of Inl e \<Rightarrow> Inl e | Inr x \<Rightarrow> Inr (fmt_f 2 x @ '' GiB/s''))
               else if 1024 ^ 2 < r then
                 (case truediv r (1024 ^ 2) of Inl e \<Rightarrow> Inl e | Inr x \<Rightarrow> Inr (fmt_f 2 x @ '' MiB/s''))
               else if 1024 < r then
                 (case truediv r 1024 of Inl e \<Rightarrow> Inl e | Inr x \<Rightarrow> Inr (fmt_f 2 x @ '' KiB/s''))
               else
                 (case float_of r of Inl e \<Rightarrow> Inl e | Inr x \<Rightarrow> Inr (fmt_f 0 x @ '' B/s'')))
      else Inr '''')"

section \<open>Paths and the file system\<close>

text \<open>
  A \<open>Path\<close> is the list of its components below the root; \<open>BASE_DATA_DIR\<close> is taken
  absolute. \<open>base / s\<close> splits \<open>s\<close> at the slashes, drops empty and \<open>.\<close> components, and
  starts again from the root when \<open>s\<close> begins with a slash (\<open>joinpath\<close>). The file
  system maps a path to the kind of node found there; the root is a directory. It
  knows no permissions, links or \<open>..\<close>: \<open>os.mkdir\<close> fails only because the path
  exists (\<open>FileExistsError\<close>), or because on the way to it a component is missing
  (\<open>FileNotFoundError\<close>) or is not a directory (\<open>NotADirectoryError\<close>); the walk goes
  from the root down and stops at the first such component, and the error names the
  path that was to be made. In a file system where every node lies in a directory
  (\<open>well_formed\<close>) a path that exists has directories all the way, so looking at the
  path itself first gives what the walk gives.
\<close>

type_synonym path = "string list"

datatype node = Dir | File

type_synonym filesystem = "(path \<times> node) list"

fun split_slash :: "string \<Rightarrow> string list" where
  "split_slash [] = [[]]"
| "split_slash (c # cs) =
     (if c = CHR ''/'' then [] # split_slash cs
      else (case split_slash cs of [] \<Rightarrow> [[c]] | p # ps \<Rightarrow> (c # p) # ps))"

definition parse_parts :: "string \<Rightarrow> path" where
  "parse_parts s = filter (\<lambda>p. p \<noteq> [] \<and> p \<noteq> ''.'') (split_slash s)"

definition joinpath :: "path \<Rightarrow> string \<Rightarrow> path" where
  \<comment> \<open>\<open>base / s\<close>\<close>
  "joinpath base s = (if startswith s ''/'' then parse_parts s else base @ parse_parts s)"

definition parent :: "path \<Rightarrow> path" where
  "parent p = butlast p"

definition path_name :: "path \<Rightarrow> string" where
  \<comment> \<open>\<open>p.name\<close>: the last component, empty for the root\<close>
  "path_name p = (if p = [] then [] else last p)"

definition path_suffix :: "path \<Rightarrow> string" where
  \<comment> \<open>\<open>p.suffix\<close>: from the last dot of the name, unless that dot is its first or last character\<close>
  "path_suffix p =
     (let nm = path_name p;
          k = length (takeWhile (\<lambda>c. c \<noteq> CHR ''.'') (rev nm))
      in if k < length nm \<and> 0 < k \<and> Suc k < length nm then drop (length nm - Suc k) nm else [])"

definition node_at :: "filesystem \<Rightarrow> path \<Rightarrow> node option" where
  "node_at fs p = (if p = [] then Some Dir else map_of fs p)"

definition is_dir :: "filesystem \<Rightarrow> path \<Rightarrow> bool" where
  "is_dir fs p = (node_at fs p = Some Dir)"

definition is_file :: "filesystem \<Rightarrow> path \<Rightarrow> bool" where
  "is_file fs p = (node_at fs p = Some File)"

definition iterdir :: "filesystem \<Rightarrow> path \<Rightarrow> path list" where
  \<comment> \<open>the entries directly inside \<open>p\<close>\<close>
  "iterdir fs p = filter (\<lambda>q. q \<noteq> [] \<and> parent q = p) (remdups (map fst fs))"

definition well_formed :: "filesystem \<Rightarrow> bool" where
  \<comment> \<open>every node lies in a directory\<close>
  "well_formed fs = list_all (\<lambda>q. is_dir fs (parent q)) (map fst fs)"

definition ancestors :: "path \<Rightarrow> path list" where
  \<comment> \<open>the proper prefixes of \<open>p\<close>, the root first\<close>
  "ancestors p = map (\<lambda>k. take k p) [0..<length p]"

definition os_mkdir :: "path \<Rightarrow> filesystem \<Rightarrow> py_exc + filesystem" where
  "os_mkdir p fs =
     (if node_at fs p \<noteq> None then Inl (FileExistsError p)
      else (case filter (\<lambda>q. \<not> is_dir fs q) (ancestors p) of
              [] \<Rightarrow> Inr ((p, Dir) # fs)
            | q # qs \<Rightarrow>
                if node_at fs q = None then Inl (FileNotFoundError p)
                else Inl (NotADirectoryError p)))"

definition is_FileNotFoundError :: "py_exc \<Rightarrow> bool" where
  "is_FileNotFoundError e = (case e of FileNotFoundError _ \<Rightarrow> True | _ \<Rightarrow> False)"

definition is_FileExistsError :: "py_exc \<Rightarrow> bool" where
  "is_FileExistsError e = (case e of FileExistsError _ \<Rightarrow> True | _ \<Rightarrow> False)"

text \<open>
  \<open>Path.mkdir(parents, exist_ok)\<close> of pathlib: \<open>os.mkdir\<close>; on \<open>FileNotFoundError\<close>, with
  \<open>parents\<close>, the parent is made (\<open>parents=True, exist_ok=True\<close>) and the directory is
  tried once more without \<open>parents\<close>; any other \<open>OSError\<close> is passed over only when
  \<open>exist_ok\<close> holds and the path is a directory.
\<close>

function mkdir :: "bool \<Rightarrow> bool \<Rightarrow> path \<Rightarrow> filesystem \<Rightarrow> py_exc + filesystem" where
  "mkdir parents exist_ok p fs =
     (case os_mkdir p fs of
        Inr fs' \<Rightarrow> Inr fs'
      | Inl e \<Rightarrow>
          if is_FileNotFoundError e then
            (if \<not> parents \<or> parent p = p then Inl e
             else (case mkdir True True (parent p) fs of
                     Inl e' \<Rightarrow> Inl e'
                   | Inr fs' \<Rightarrow> mkdir False exist_ok p fs'))
          else if \<not> exist_ok \<or> \<not> is_dir fs p then Inl e
          else Inr fs)"
  by pat_completeness auto
termination
  by (relation "measure (\<lambda>(parents, exist_ok, p, fs). 2 * length p + (if parents then 1 else 0))")
     (auto simp: parent_def; case_tac p rule: rev_cases; simp)+

declare mkdir.simps [simp del]

definition count_media_files :: "filesystem \<Rightarrow> path \<Rightarrow> string \<Rightarrow> nat" where
  "count_media_files fs folder suffix =
     (if \<not> is_dir fs folder then 0
      else length (filter (\<lambda>p. is_file fs p \<and> lower (path_suffix p) = lower suffix) (iterdir fs folder)))"

section \<open>The request and the output names\<close>

record request_payload =
  url :: string
  imdbid :: string
  name :: string
  season :: int

definition validate_imdbid :: "string \<Rightarrow> bool" where
  "validate_imdbid v = (\<not> (\<not> startswith v ''tt'' \<or> length v < 7))"

definition validate_season :: "int \<Rightarrow> bool" where
  "validate_season v = (\<not> v < 1)"

definition valid_request :: "request_payload \<Rightarrow> bool" where
  \<comment> \<open>what \<open>RequestPayload\<close> accepts (the URL's own syntax apart)\<close>
  "valid_request r = (validate_imdbid (imdbid r) \<and> validate_season (season r))"

definition build_output_template :: "string \<Rightarrow> int \<Rightarrow> string" where
  "build_output_template nm seas =
     (let season_str = fmt_02d seas;
          episode_placeholder = ''%(autonumber)02d''
      in nm @ '' S'' @ season_str @ ''E'' @ episode_placeholder @ ''.%(ext)s'')"

text \<open>
  Modelled from the spec: the downloader, which is outside the repository, names each
  completed output unit by filling the template. \<open>%(autonumber)02d\<close> becomes the
  unit's number in decimal, padded with a zero to two digits, \<open>%(ext)s\<close> becomes the
  extension of the output, and every other character is copied
  (\<open>expand_template\<close>). The numbers start at 1 and go up by one per completed unit
  (\<open>output_filename\<close>: the unit completed after \<open>k\<close> others has the number \<open>k + 1\<close>). The
  runner passes no start number of its own.
\<close>

function expand_template :: "string \<Rightarrow> int \<Rightarrow> string \<Rightarrow> string" where
  "expand_template tmpl n ext =
     (if tmpl = [] then []
      else if startswith tmpl ''%(autonumber)02d'' then
        fmt_02d n @ expand_template (drop (length ''%(autonumber)02d'') tmpl) n ext
      else if startswith tmpl ''%(ext)s'' then
        ext @ expand_template (drop (length ''%(ext)s'') tmpl) n ext
      else hd tmpl # expand_template (tl tmpl) n ext)"
  by pat_completeness auto
termination
  by (relation "measure (\<lambda>(tmpl, n, ext). length tmpl)") auto

declare expand_template.simps [simp del]

definition output_filename :: "string \<Rightarrow> nat \<Rightarrow> string \<Rightarrow> string" where
  \<comment> \<open>Modelled from the spec: the name of the unit completed after \<open>k\<close> others, numbered \<open>k + 1\<close>\<close>
  "output_filename tmpl k ext = expand_template tmpl (int k + 1) ext"

definition safe_name :: "request_payload \<Rightarrow> string" where
  "safe_name r = strip (name r)"

definition main_folder_name :: "request_payload \<Rightarrow> string" where
  "main_folder_name r = safe_name r @ '' [imdbid-'' @ imdbid r @ '']''"

definition season_folder_name :: "request_payload \<Rightarrow> string" where
  "season_folder_name r = ''Season '' @ fmt_02d (season r)"

definition main_dir :: "path \<Rightarrow> request_payload \<Rightarrow> path" where
  "main_dir base r = joinpath base (main_folder_name r)"

definition season_dir :: "path \<Rightarrow> request_payload \<Rightarrow> path" where
  "season_dir base r = joinpath (main_dir base r) (season_folder_name r)"

definition outtmpl :: "path \<Rightarrow> request_payload \<Rightarrow> path" where
  "outtmpl base r = joinpath (season_dir base r) (build_output_template (safe_name r) (season r))"

section \<open>The job registry\<close>

text \<open>
  A job's dict is a record whose optional keys are options; \<open>jobs\<close> is an association
  list in insertion order, as a Python dict is. A timestamp is the string the clock
  gave. \<open>error\<close> holds the literal of the handler or \<open>str(exc)\<close>, kept as the exception
  it is the text of.
\<close>

datatype status = Pending | Running | Finished | Failed

datatype error_text = Literal string | StrOf py_exc

type_synonym job_id = string

type_synonym timestamp = string

record job_meta =
  status :: status
  created_at :: "timestamp option"
  payload :: "request_payload option"
  started_at :: "timestamp option"
  progress_percent :: "int option"
  current_title :: "string option"
  speed :: "string option"
  current_episode :: "nat option"
  finished_at :: "timestamp option"
  result_path :: "path option"
  message :: "string option"
  error :: "error_text option"

type_synonym registry = "(job_id \<times> job_meta) list"

datatype http_error = HTTPException nat string

record pull_response =
  resp_job_id :: job_id
  resp_status :: string
  resp_message :: string

definition active :: "job_meta \<Rightarrow> bool" where
  \<comment> \<open>\<open>meta["status"] in ("pending", "running")\<close>\<close>
  "active meta = (status meta = Pending \<or> status meta = Running)"

definition new_job :: "timestamp \<Rightarrow> request_payload \<Rightarrow> job_meta" where
  "new_job now request =
     \<lparr>status = Pending, created_at = Some now, payload = Some request, started_at = None,
      progress_percent = None, current_title = None, speed = None, current_episode = None,
      finished_at = None, result_path = None, message = None, error = None\<rparr>"

definition pull :: "request_payload \<Rightarrow> job_id \<Rightarrow> timestamp \<Rightarrow> registry \<Rightarrow> (http_error + pull_response) \<times> registry" where
  \<comment> \<open>the handler of \<open>POST /pull\<close>; \<open>new_id\<close> is what \<open>uuid.uuid4()\<close> gives, \<open>now\<close> the clock\<close>
  "pull request new_id now jobs =
     (if list_ex active (map snd jobs)
      then (Inl (HTTPException 409 ''Another download is already in progress. Please wait or cancel it.''), jobs)
      else (Inr \<lparr>resp_job_id = new_id, resp_status = ''pending'', resp_message = ''Download started.''\<rparr>,
            AList.update new_id (new_job now request) jobs))"

definition update_job :: "job_id \<Rightarrow> (job_meta \<Rightarrow> job_meta) \<Rightarrow> registry \<Rightarrow> py_exc + registry" where
  \<comment> \<open>\<open>jobs[job_id].update(...)\<close>: a missing key raises\<close>
  "update_job j f jobs =
     (case map_of jobs j of
        None \<Rightarrow> Inl (KeyError j)
      | Some m \<Rightarrow> Inr (AList.update j (f m) jobs))"

section \<open>The progress hook\<close>

definition hook :: "job_id \<Rightarrow> path \<Rightarrow> filesystem \<Rightarrow> progress_event \<Rightarrow> registry \<Rightarrow> py_exc + registry" where
  \<comment> \<open>the closure \<open>_yt_dlp_progress_hook(job_id, season_dir)\<close> applied to \<open>d\<close>, the file system as it is then\<close>
  "hook j sdir fs d jobs =
     (if ev_status d \<noteq> Some ''downloading'' \<and> ev_status d \<noteq> Some ''finished'' then Inr jobs
      else
        (case hook_percent d of
           Inl e \<Rightarrow> Inl e
         | Inr percent \<Rightarrow>
             (case hook_speed (ev_speed d) of
                Inl e \<Rightarrow> Inl e
              | Inr spd \<Rightarrow>
                  (let episode_no = count_media_files fs sdir ''.mp4''
                   in Inr (case map_of jobs j of
                             None \<Rightarrow> jobs
                           | Some job_meta \<Rightarrow>
                               AList.update j
                                 (job_meta\<lparr>progress_percent := Some percent,
                                           current_title := Some (ev_title d),
                                           speed := Some spd,
                                           current_episode := Some episode_no\<rparr>) jobs)))))"

section \<open>The job runner\<close>

text \<open>
  The downloader is outside the repository. The runner imports it on entry
  (\<open>from yt_dlp import YoutubeDL\<close>, the first statement of \<open>_run_download\<close>, before the
  first locked block and outside the \<open>try\<close>): the import gives the downloader or
  raises, and \<open>_run_download\<close> takes that outcome as its argument \<open>yt_dlp\<close>. All the
  runner sees of a call of \<open>ydl.download\<close> is: the hook is called some number of times, each time with an event
  and with the file system as the download has left it so far; the call then returns or
  raises. A \<open>download_run\<close> records one such call, and the runner takes the downloader
  as a function from the output template, the URL and the file system to a run. A hook
  that raises leaves the registry as it was; what the downloader makes of it is part of
  its run.
\<close>

record download_run =
  dl_events :: "(filesystem \<times> progress_event) list"
  dl_final_fs :: filesystem
  dl_raises :: "py_exc option"

type_synonym downloader = "path \<Rightarrow> string \<Rightarrow> filesystem \<Rightarrow> download_run"

definition run_start :: "job_id \<Rightarrow> timestamp \<Rightarrow> registry \<Rightarrow> py_exc + registry" where
  \<comment> \<open>the first locked block of \<open>_run_download\<close>\<close>
  "run_start j now jobs =
     update_job j (\<lambda>m. m\<lparr>status := Running, started_at := Some now,
                          progress_percent := Some 0, current_title := Some '''', speed := Some ''''\<rparr>) jobs"

definition run_finished :: "job_id \<Rightarrow> timestamp \<Rightarrow> path \<Rightarrow> registry \<Rightarrow> py_exc + registry" where
  \<comment> \<open>the locked block that ends the \<open>try\<close>\<close>
  "run_finished j now sdir jobs =
     update_job j (\<lambda>m. m\<lparr>status := Finished, finished_at := Some now, result_path := Some sdir,
                          message := Some ''Download completed successfully'',
                          progress_percent := Some 100, current_title := Some '''', speed := Some ''''\<rparr>) jobs"

definition run_failed :: "job_id \<Rightarrow> timestamp \<Rightarrow> error_text \<Rightarrow> registry \<Rightarrow> py_exc + registry" where
  \<comment> \<open>the locked block of either handler\<close>
  "run_failed j now txt jobs =
     update_job j (\<lambda>m. m\<lparr>status := Failed, finished_at := Some now, error := Some txt\<rparr>) jobs"

definition handler_text :: "py_exc \<Rightarrow> error_text" where
  \<comment> \<open>\<open>except FileExistsError\<close> first, then \<open>except Exception as exc\<close>\<close>
  "handler_text e = (if is_FileExistsError e then Literal ''Season folder already exists'' else StrOf e)"

fun run_hooks :: "job_id \<Rightarrow> path \<Rightarrow> (filesystem \<times> progress_event) list \<Rightarrow> registry \<Rightarrow> registry" where
  "run_hooks j sdir [] jobs = jobs"
| "run_hooks j sdir ((fs, d) # evs) jobs =
     run_hooks j sdir evs (case hook j sdir fs d jobs of Inl e \<Rightarrow> jobs | Inr jobs' \<Rightarrow> jobs')"

definition try_block ::
  "path \<Rightarrow> downloader \<Rightarrow> timestamp \<Rightarrow> job_id \<Rightarrow> request_payload \<Rightarrow> registry \<times> filesystem
     \<Rightarrow> (py_exc + unit) \<times> registry \<times> filesystem" where
  \<comment> \<open>the body of the \<open>try\<close>: \<open>Inl e\<close> when it raises \<open>e\<close>\<close>
  "try_block base ydl now j request w =
     (case w of (jobs, fs) \<Rightarrow>
        (case mkdir True True (main_dir base request) fs of
           Inl e \<Rightarrow> (Inl e, jobs, fs)
         | Inr fs1 \<Rightarrow>
             (case mkdir False False (season_dir base request) fs1 of
                Inl e \<Rightarrow> (Inl e, jobs, fs1)
              | Inr fs2 \<Rightarrow>
                  (let run = ydl (outtmpl base request) (url request) fs2;
                       jobs1 = run_hooks j (season_dir base request) (dl_events run) jobs
                   in case dl_raises run of
                        Some e \<Rightarrow> (Inl e, jobs1, dl_final_fs run)
                      | None \<Rightarrow>
                          (case run_finished j now (season_dir base request) jobs1 of
                             Inl e \<Rightarrow> (Inl e, jobs1, dl_final_fs run)
                           | Inr jobs2 \<Rightarrow> (Inr (), jobs2, dl_final_fs run))))))"

definition run_download ::
  "path \<Rightarrow> py_exc + downloader \<Rightarrow> timestamp \<Rightarrow> timestamp \<Rightarrow> job_id \<Rightarrow> request_payload
     \<Rightarrow> registry \<times> filesystem \<Rightarrow> py_exc option \<times> registry \<times> filesystem" where
  \<comment> \<open>\<open>_run_download(job_id, payload)\<close>; the first component is the exception that escapes it, if any\<close>
  "run_download base yt_dlp t_start t_end j request w =
     (case w of (jobs, fs) \<Rightarrow>
        (case yt_dlp of
           Inl e \<Rightarrow> (Some e, jobs, fs)
         | Inr ydl \<Rightarrow>
             (case run_start j t_start jobs of
                Inl e \<Rightarrow> (Some e, jobs, fs)
              | Inr jobs1 \<Rightarrow>
                  (case try_block base ydl t_end j request (jobs1, fs) of
                     (Inr u, jobs2, fs2) \<Rightarrow> (None, jobs2, fs2)
                   | (Inl e, jobs2, fs2) \<Rightarrow>
                       (case run_failed j t_end (handler_text e) jobs2 of
                          Inl e' \<Rightarrow> (Some e', jobs2, fs2)
                        | Inr jobs3 \<Rightarrow> (None, jobs3, fs2))))))"

section \<open>The running system\<close>

text \<open>
  Requests and background tasks run concurrently; every access to \<open>jobs\<close> is inside
  \<open>with jobs_lock\<close>, so each locked block is one atomic step and a run of the system is
  an interleaving of such steps. A runner is \<open>Queued\<close> from \<open>add_task\<close> until its first
  block, \<open>InTry\<close> from then until the block that ends it, and \<open>Returned\<close> after. A runner
  whose import raises returns before its first block, the registry as it was.
  \<open>uuid.uuid4()\<close> gives an identifier that is not in the registry. Between the blocks
  the file system may change in any way (the runner's \<open>mkdir\<close>, the downloader).
\<close>

datatype runner = Queued request_payload | InTry request_payload | Returned

record system =
  sys_jobs :: registry
  sys_fs :: filesystem
  sys_runners :: "(job_id \<times> runner) list"

definition init_system :: "filesystem \<Rightarrow> system" where
  "init_system fs = \<lparr>sys_jobs = [], sys_fs = fs, sys_runners = []\<rparr>"

inductive step :: "path \<Rightarrow> system \<Rightarrow> system \<Rightarrow> bool" for base :: path where
  step_pull_conflict:
    "pull request new_id now (sys_jobs s) = (Inl err, jobs') \<Longrightarrow>
     step base s (s\<lparr>sys_jobs := jobs'\<rparr>)"
| step_pull_created:
    "new_id \<notin> fst ` set (sys_jobs s) \<Longrightarrow>
     pull request new_id now (sys_jobs s) = (Inr resp, jobs') \<Longrightarrow>
     step base s (s\<lparr>sys_jobs := jobs', sys_runners := AList.update new_id (Queued request) (sys_runners s)\<rparr>)"
| step_import_raises:
    "map_of (sys_runners s) j = Some (Queued request) \<Longrightarrow>
     step base s (s\<lparr>sys_runners := AList.update j Returned (sys_runners s)\<rparr>)"
| step_run_start:
    "map_of (sys_runners s) j = Some (Queued request) \<Longrightarrow>
     run_start j now (sys_jobs s) = Inr jobs' \<Longrightarrow>
     step base s (s\<lparr>sys_jobs := jobs', sys_runners := AList.update j (InTry request) (sys_runners s)\<rparr>)"
| step_run_start_raises:
    "map_of (sys_runners s) j = Some (Queued request) \<Longrightarrow>
     run_start j now (sys_jobs s) = Inl e \<Longrightarrow>
     step base s (s\<lparr>sys_runners := AList.update j Returned (sys_runners s)\<rparr>)"
| step_fs:
    "step base s (s\<lparr>sys_fs := fs'\<rparr>)"
| step_hook:
    "map_of (sys_runners s) j = Some (InTry request) \<Longrightarrow>
     hook j (season_dir base request) (sys_fs s) d (sys_jobs s) = Inr jobs' \<Longrightarrow>
     step base s (s\<lparr>sys_jobs := jobs'\<rparr>)"
| step_run_finished:
    "map_of (sys_runners s) j = Some (InTry request) \<Longrightarrow>
     run_finished j now (season_dir base request) (sys_jobs s) = Inr jobs' \<Longrightarrow>
     step base s (s\<lparr>sys_jobs := jobs', sys_runners := AList.update j Returned (sys_runners s)\<rparr>)"
| step_run_failed:
    "map_of (sys_runners s) j = Some (InTry request) \<Longrightarrow>
     run_failed j now (handler_text e) (sys_jobs s) = Inr jobs' \<Longrightarrow>
     step base s (s\<lparr>sys_jobs := jobs', sys_runners := AList.update j Returned (sys_runners s)\<rparr>)"
| step_run_escapes:
    "map_of (sys_runners s) j = Some (InTry request) \<Longrightarrow>
     run_failed j now (handler_text e) (sys_jobs s) = Inl e' \<Longrightarrow>
     step base s (s\<lparr>sys_runners := AList.update j Returned (sys_runners s)\<rparr>)"

inductive reachable :: "path \<Rightarrow> system \<Rightarrow> bool" for base :: path where
  reachable_init: "reachable base (init_system fs)"
| reachable_step: "reachable base s \<Longrightarrow> step base s s' \<Longrightarrow> reachable base s'"

definition status_of :: "registry \<Rightarrow> job_id \<Rightarrow> status option" where
  "status_of jobs j = map_option status (map_of jobs j)"

definition status_move :: "status \<Rightarrow> status \<Rightarrow> bool" where
  \<comment> \<open>one move along \<open>pending \<rightarrow> running \<rightarrow> {finished | failed}\<close>, or none\<close>
  "status_move a b =
     (a = b \<or> (a = Pending \<and> b = Running) \<or> (a = Running \<and> (b = Finished \<or> b = Failed)))"

definition active_count :: "registry \<Rightarrow> nat" where
  "active_count jobs = length (filter active (map snd jobs))"

section \<open>Notions and inputs of the statements\<close>

definition ev_half :: progress_event where
  "ev_half = \<lparr>ev_status = Some ''downloading'', total_bytes = Some 100, total_bytes_estimate = None,
              downloaded_bytes = Holds (Some 50), ev_title = ''Episode 1'', ev_speed = None\<rparr>"

definition digits_value :: "string \<Rightarrow> int" where
  \<comment> \<open>the number a string of decimal digits denotes (used in statements only)\<close>
  "digits_value s = foldl (\<lambda>a c. 10 * a + (of_char c - 48)) 0 s"

definition is_digit :: "char \<Rightarrow> bool" where
  "is_digit c = (48 \<le> (of_char c :: int) \<and> (of_char c :: int) \<le> 57)"

definition req_show :: request_payload where
  "req_show = \<lparr>url = ''https://example.org/playlist'', imdbid = ''tt1234567'', name = ''Show'', season = 1\<rparr>"

definition req_padded :: request_payload where
  "req_padded = \<lparr>url = ''https://example.org/playlist'', imdbid = ''tt1234567'', name = '' Show'', season = 1\<rparr>"

definition req_nested :: request_payload where
  "req_nested = \<lparr>url = ''https://example.org/playlist'', imdbid = ''tt1234567'', name = ''a/b'', season = 1\<rparr>"

definition req_abs :: request_payload where
  "req_abs = \<lparr>url = ''https://example.org/playlist'', imdbid = ''tt1234567'', name = ''/abs'', season = 1\<rparr>"

definition season_path :: path where
  "season_path = [''data'', ''Show [imdbid-tt1234567]'', ''Season 01'']"

definition fs_two_episodes :: filesystem where
  "fs_two_episodes =
     [([''data''], Dir),
      ([''data'', ''Show [imdbid-tt1234567]''], Dir),
      (season_path, Dir),
      (season_path @ [''Show S01E01.mp4''], File),
      (season_path @ [''Show S01E02.MP4''], File),
      (season_path @ [''Show S01E03.f137.mp4.part''], File),
      (season_path @ [''.mp4''], File),
      (season_path @ [''extras.mp4''], Dir)]"

definition ev_downloading :: progress_event where
  "ev_downloading = \<lparr>ev_status = Some ''downloading'', total_bytes = Some 1000, total_bytes_estimate = None,
                      downloaded_bytes = Holds (Some 250), ev_title = ''Episode 3'', ev_speed = Some 2048\<rparr>"

definition job_running :: job_meta where
  "job_running = (new_job ''2024-01-01T00:00:00'' req_show)
     \<lparr>status := Running, started_at := Some ''2024-01-01T00:00:01'', progress_percent := Some 0,
      current_title := Some [], speed := Some []\<rparr>"

definition same_outcome :: "job_meta \<Rightarrow> job_meta \<Rightarrow> bool" where
  \<comment> \<open>\<open>m'\<close> differs from \<open>m\<close> in the progress fields at most (used in statements only)\<close>
  "same_outcome m m' =
     (status m' = status m \<and> created_at m' = created_at m \<and> payload m' = payload m \<and>
      started_at m' = started_at m \<and> finished_at m' = finished_at m \<and>
      result_path m' = result_path m \<and> message m' = message m \<and> error m' = error m)"

definition base_dir :: path where
  "base_dir = [''data'']"

definition jobs_pending :: registry where
  "jobs_pending = [(''job-1'', new_job ''2024-01-01T00:00:00'' req_show)]"


definition ydl_one_episode :: downloader where
  "ydl_one_episode =
     (\<lambda>tmpl u fs. \<lparr>dl_events = [(fs, ev_downloading), ((season_path @ [''Show S01E01.mp4''], File) # fs, ev_downloading)],
                   dl_final_fs = (season_path @ [''Show S01E01.mp4''], File) # fs,
                   dl_raises = None\<rparr>)"

definition fs_root_only :: filesystem where
  "fs_root_only = [([''data''], Dir), ([''data'', ''Show [imdbid-tt1234567]''], Dir)]"

definition runner_ok :: "registry \<Rightarrow> job_id \<Rightarrow> runner \<Rightarrow> bool" where
  \<comment> \<open>where a runner stands agrees with the status of its job (used in statements only)\<close>
  "runner_ok jobs j r =
     (case r of
        Queued request \<Rightarrow> status_of jobs j = Some Pending
      | InTry request \<Rightarrow> status_of jobs j = Some Running
      | Returned \<Rightarrow> status_of jobs j = Some Pending \<or> status_of jobs j = Some Finished \<or>
                    status_of jobs j = Some Failed)"

definition record_ok :: "job_meta \<Rightarrow> bool" where
  "record_ok m =
     ((result_path m \<noteq> None \<longleftrightarrow> status m = Finished) \<and> (error m \<noteq> None \<longleftrightarrow> status m = Failed))"

definition system_inv :: "system \<Rightarrow> bool" where
  "system_inv s =
     (distinct (map fst (sys_jobs s)) \<and>
      active_count (sys_jobs s) \<le> 1 \<and>
      (\<forall>j r. map_of (sys_runners s) j = Some r \<longrightarrow> runner_ok (sys_jobs s) j r) \<and>
      (\<forall>j m. map_of (sys_jobs s) j = Some m \<longrightarrow> record_ok m))"

definition status_rank :: "status \<Rightarrow> nat" where
  "status_rank st = (case st of Pending \<Rightarrow> 0 | Running \<Rightarrow> 1 | Finished \<Rightarrow> 2 | Failed \<Rightarrow> 2)"

definition sys_pending :: system where
  "sys_pending = \<lparr>sys_jobs = jobs_pending, sys_fs = fs_root_only,
                   sys_runners = [(''job-1'', Queued req_show)]\<rparr>"

definition sys_running :: system where
  "sys_running = \<lparr>sys_jobs = [(''job-1'', job_running)], sys_fs = fs_root_only,
                   sys_runners = [(''job-1'', InTry req_show)]\<rparr>"

definition job_failed :: job_meta where
  "job_failed = job_running\<lparr>status := Failed, finished_at := Some ''2024-01-01T00:00:02'',
                             error := Some (StrOf (DownloaderError ''network unreachable''))\<rparr>"

definition sys_failed :: system where
  "sys_failed = \<lparr>sys_jobs = [(''job-1'', job_failed)], sys_fs = fs_root_only,
                  sys_runners = [(''job-1'', Returned)]\<rparr>"

section \<open>Rounding: the facts the claims need\<close>

lemma pow2_powi: "pow2 k = 2 powi k"
  by (simp add: pow2_def power_int_def power_one_over inverse_eq_divide)

lemma pow2_pos: "0 < pow2 k"
  by (simp add: pow2_def)

lemma pow2_add: "pow2 (a + b) = pow2 a * pow2 b"
  by (simp add: pow2_powi power_int_add)

lemma pow2_less_iff: "pow2 a < pow2 b \<longleftrightarrow> a < b"
proof
  assume "a < b" then show "pow2 a < pow2 b"
    by (simp add: pow2_powi power_int_strict_increasing)
next
  assume h: "pow2 a < pow2 b"
  show "a < b"
  proof (rule ccontr)
    assume "\<not> a < b"
    then have "b \<le> a" by simp
    then have "pow2 b \<le> pow2 a"
      by (simp add: pow2_powi power_int_increasing)
    with h show False by simp
  qed
qed

lemma pow2_le_iff: "pow2 a \<le> pow2 b \<longleftrightarrow> a \<le> b"
  using pow2_less_iff [of b a] by (auto simp: not_less [symmetric])

lemma pow2_of_nat: "0 \<le> k \<Longrightarrow> pow2 k = of_int (2 ^ nat k)"
  by (simp add: pow2_def)

lemma pow2_neg: "pow2 (- k) = 1 / pow2 k"
  by (simp add: pow2_powi power_int_minus_divide)

lemma ilog2_bounds:
  assumes "0 < q"
  shows "pow2 (ilog2 q) \<le> q" and "q < pow2 (ilog2 q + 1)"
proof -
  have "pow2 (ilog2 q) \<le> q \<and> q < pow2 (ilog2 q + 1)"
  proof (cases "1 \<le> q")
    case True
    define n where "n = \<lfloor>q\<rfloor>"
    have n1: "1 \<le> n" using True by (simp add: n_def le_floor_iff)
    then have npos: "0 < n" by simp
    have b1: "1 \<le> bitlen n" using npos by (simp add: bitlen_alt_def)
    have bb: "2 ^ nat (bitlen n - 1) \<le> n" "n < 2 ^ nat (bitlen n)"
      using bitlen_bounds [OF npos] by auto
    have e: "ilog2 q = bitlen n - 1" using True by (simp add: ilog2_def n_def)
    have "pow2 (bitlen n - 1) = of_int (2 ^ nat (bitlen n - 1))"
      using b1 by (simp add: pow2_of_nat)
    also have "\<dots> \<le> of_int n" using bb(1) by (simp only: of_int_le_iff)
    also have "\<dots> \<le> q" by (simp add: n_def)
    finally have lo: "pow2 (ilog2 q) \<le> q" by (simp add: e)
    have "q < of_int (n + 1)" unfolding n_def by linarith
    also have "\<dots> \<le> of_int (2 ^ nat (bitlen n))"
      using bb(2) by (simp only: of_int_le_iff)
    also have "\<dots> = pow2 (bitlen n)" using b1 by (simp add: pow2_of_nat)
    finally have hi: "q < pow2 (ilog2 q + 1)" by (simp add: e)
    from lo hi show ?thesis by simp
  next
    case False
    then have q1: "q < 1" by simp
    define m where "m = \<lceil>1 / q\<rceil> - 1"
    have inv1: "1 < 1 / q" using assms q1 by (simp add: field_simps)
    then have "2 \<le> \<lceil>1 / q\<rceil>" by (simp add: le_ceiling_iff) 
    then have mpos: "0 < m" by (simp add: m_def)
    have b1: "1 \<le> bitlen m" using mpos by (simp add: bitlen_alt_def)
    have bb: "2 ^ nat (bitlen m - 1) \<le> m" "m < 2 ^ nat (bitlen m)"
      using bitlen_bounds [OF mpos] by auto
    have e: "ilog2 q = - bitlen m" using False by (simp add: ilog2_def m_def)
    have m_lt: "of_int m < 1 / q" unfolding m_def by linarith
    have m_ge: "1 / q \<le> of_int (m + 1)" unfolding m_def by linarith
    have "1 / q \<le> of_int (m + 1)" by (rule m_ge)
    also have "\<dots> \<le> of_int (2 ^ nat (bitlen m))"
      using bb(2) by (simp only: of_int_le_iff)
    also have "\<dots> = pow2 (bitlen m)" using b1 by (simp add: pow2_of_nat)
    finally have "1 / q \<le> pow2 (bitlen m)" .
    then have "1 / pow2 (bitlen m) \<le> q"
      using assms pow2_pos [of "bitlen m"] by (simp add: field_simps)
    then have lo: "pow2 (ilog2 q) \<le> q" by (simp add: e pow2_neg)
    have "pow2 (bitlen m - 1) = of_int (2 ^ nat (bitlen m - 1))"
      using b1 by (simp add: pow2_of_nat)
    also have "\<dots> \<le> of_int m" using bb(1) by (simp only: of_int_le_iff)
    also have "\<dots> < 1 / q" by (rule m_lt)
    finally have "pow2 (bitlen m - 1) < 1 / q" .
    then have "q < 1 / pow2 (bitlen m - 1)"
      using assms pow2_pos [of "bitlen m - 1"] by (simp add: field_simps)
    also have "\<dots> = pow2 (- (bitlen m - 1))" by (simp only: pow2_neg)
    finally have hi: "q < pow2 (ilog2 q + 1)" by (simp add: e)
    from lo hi show ?thesis by simp
  qed
  then show "pow2 (ilog2 q) \<le> q" and "q < pow2 (ilog2 q + 1)" by simp_all
qed

lemma ilog2_less: "0 < q \<Longrightarrow> q < pow2 n \<Longrightarrow> ilog2 q < n"
  using ilog2_bounds(1) [of q] pow2_less_iff [of "ilog2 q" n] by simp

lemma ilog2_ge: "0 < q \<Longrightarrow> pow2 n \<le> q \<Longrightarrow> n \<le> ilog2 q"
  using ilog2_bounds(2) [of q] pow2_less_iff [of n "ilog2 q + 1"] by simp

lemma rhe_cases: "round_half_even x = \<lfloor>x\<rfloor> \<or> round_half_even x = \<lfloor>x\<rfloor> + 1"
  by (simp add: round_half_even_def Let_def)

lemma rhe_of_int: "round_half_even (of_int n) = n"
  by (simp add: round_half_even_def Let_def)

lemma rhe_ge: "of_int n \<le> x \<Longrightarrow> n \<le> round_half_even x"
  using rhe_cases [of x] le_floor_iff [of n x] by linarith

lemma rhe_le: "x \<le> of_int n \<Longrightarrow> round_half_even x \<le> n"
proof (cases "x = of_int n")
  case True then show ?thesis by (simp add: rhe_of_int)
next
  case False
  assume "x \<le> of_int n"
  with False have "x < of_int n" by simp
  then have "\<lfloor>x\<rfloor> < n" by (simp add: floor_less_iff)
  with rhe_cases [of x] show ?thesis by auto
qed

lemma rhe_near: "\<bar>of_int (round_half_even x) - x\<bar> \<le> 1 / 2"
proof -
  have f: "of_int \<lfloor>x\<rfloor> \<le> x" "x < of_int \<lfloor>x\<rfloor> + 1" by linarith+
  consider "x - of_int \<lfloor>x\<rfloor> < 1 / 2" | "1 / 2 < x - of_int \<lfloor>x\<rfloor>" | "x - of_int \<lfloor>x\<rfloor> = 1 / 2"
    by linarith
  then show ?thesis
  proof cases
    case 1
    then have "round_half_even x = \<lfloor>x\<rfloor>" by (simp add: round_half_even_def Let_def)
    with 1 f show ?thesis by simp
  next
    case 2
    then have "round_half_even x = \<lfloor>x\<rfloor> + 1" by (simp add: round_half_even_def Let_def)
    with 2 f show ?thesis by simp
  next
    case 3
    then have "round_half_even x = \<lfloor>x\<rfloor> \<or> round_half_even x = \<lfloor>x\<rfloor> + 1"
      by (simp add: round_half_even_def Let_def)
    with 3 f show ?thesis by auto
  qed
qed


lemma round_double_nonneg: "0 \<le> q \<Longrightarrow> 0 \<le> round_double q"
proof (cases "q = 0")
  case True then show ?thesis by (simp add: round_double_def)
next
  case False
  assume "0 \<le> q"
  with False have qpos: "0 < q" by simp
  define u where "u = pow2 (max (ilog2 q) (- 1022) - 52)"
  have upos: "0 < u" by (simp add: u_def pow2_pos)
  have "of_int 0 \<le> q / u" using qpos upos by simp
  then have "0 \<le> round_half_even (q / u)" by (rule rhe_ge)
  then have "0 \<le> of_int (round_half_even (q / u)) * u" using upos by simp
  then show ?thesis using qpos by (simp add: round_double_def Let_def u_def)
qed

lemma round_double_le_scaled:
  assumes "0 < q" and "q \<le> c" and "c / pow2 (max (ilog2 q) (- 1022) - 52) = of_int k"
  shows "round_double q \<le> c"
proof -
  define u where "u = pow2 (max (ilog2 q) (- 1022) - 52)"
  have upos: "0 < u" by (simp add: u_def pow2_pos)
  have "q / u \<le> c / u" using assms(2) upos by (simp add: divide_right_mono)
  then have "q / u \<le> of_int k" using assms(3) by (simp add: u_def)
  then have "round_half_even (q / u) \<le> k" by (rule rhe_le)
  then have "(of_int (round_half_even (q / u)) :: rat) \<le> of_int k" by (simp only: of_int_le_iff)
  then have "of_int (round_half_even (q / u)) * u \<le> of_int k * u"
    using upos by (simp add: mult_right_mono)
  also have "of_int k * u = c" using assms(3) upos by (simp add: u_def field_simps)
  finally show ?thesis using assms(1) by (simp add: round_double_def Let_def u_def)
qed

lemma round_double_le_int:
  assumes "0 < q" and "q \<le> of_int c" and "c < 2 ^ 53"
  shows "round_double q \<le> of_int c"
proof -
  have "(of_int c :: rat) < of_int (2 ^ 53)" using assms(3) by (simp only: of_int_less_iff)
  also have "\<dots> = pow2 53" by (simp add: pow2_def)
  finally have "q < pow2 53" using assms(2) by simp
  then have "ilog2 q < 53" using assms(1) by (rule ilog2_less [rotated])
  define j where "j = 52 - max (ilog2 q) (- 1022)"
  have j0: "0 \<le> j" using \<open>ilog2 q < 53\<close> by (simp add: j_def)
  have "of_int c / pow2 (max (ilog2 q) (- 1022) - 52) = of_int c / pow2 (- j)"
    by (simp add: j_def)
  also have "\<dots> = of_int c * pow2 j" by (simp add: pow2_neg)
  also have "\<dots> = of_int (c * 2 ^ nat j)" using j0 by (simp add: pow2_of_nat)
  finally show ?thesis using assms(1,2) by (rule round_double_le_scaled [rotated 2])
qed

lemma round_double_le_pow2:
  assumes "0 < q" and "- 1022 \<le> ilog2 q"
  shows "round_double q \<le> pow2 (ilog2 q + 1)"
proof -
  have e: "max (ilog2 q) (- 1022) = ilog2 q" using assms(2) by simp
  have n: "pow2 (52 - ilog2 q) = 1 / pow2 (ilog2 q - 52)"
    using pow2_neg [of "ilog2 q - 52"] by simp
  have "pow2 (ilog2 q + 1) / pow2 (max (ilog2 q) (- 1022) - 52)
        = pow2 (ilog2 q + 1) * pow2 (52 - ilog2 q)"
    by (simp add: e n)
  also have "\<dots> = pow2 53" by (simp add: pow2_add [symmetric])
  also have "\<dots> = of_int (2 ^ 53)" by (simp add: pow2_def)
  finally show ?thesis
    using assms(1) ilog2_bounds(2) [OF assms(1)]
    by (intro round_double_le_scaled [where k = "2 ^ 53"]) simp_all
qed

lemma float_of_Inr:
  assumes "0 \<le> q" and "round_double q < pow2 1024"
  shows "float_of q = Inr (round_double q)"
proof (cases "round_double q = 0")
  case True then show ?thesis by (simp add: float_of_def)
next
  case False
  then have "0 < round_double q" using round_double_nonneg [OF assms(1)] by simp
  then have "ilog2 (round_double q) < 1024" using assms(2) by (rule ilog2_less)
  then show ?thesis using \<open>0 < round_double q\<close> by (simp add: float_of_def Let_def)
qed

lemma pow2_numeral_bounds: "(1::rat) < pow2 1024" "(100::rat) < pow2 1024" "pow2 1023 < pow2 1024" "(1024::rat) < pow2 1024"
proof -
  have a: "pow2 7 \<le> pow2 1024" "pow2 11 \<le> pow2 1024" by (simp_all add: pow2_le_iff)
  have b: "(1::rat) < pow2 7" "(100::rat) < pow2 7" "(1024::rat) < pow2 11" by (simp_all add: pow2_def)
  from a b show "(1::rat) < pow2 1024" "(100::rat) < pow2 1024" "(1024::rat) < pow2 1024" by simp_all
  show "pow2 1023 < pow2 1024" by (simp add: pow2_less_iff)
qed

lemma float_of_le_int:
  assumes "0 \<le> q" and "q \<le> of_int c" and "c \<le> 1024"
  shows "\<exists>x. float_of q = Inr x \<and> 0 \<le> x \<and> x \<le> of_int c"
proof (cases "q = 0")
  case True
  then show ?thesis using assms by (simp add: float_of_def round_double_def)
next
  case False
  then have qpos: "0 < q" using assms(1) by simp
  have "c < 2 ^ 53" using assms(3) by simp
  then have le: "round_double q \<le> of_int c" using qpos assms(2) by (intro round_double_le_int) 
  have "(of_int c :: rat) \<le> 1024" using assms(3) by (simp add: of_int_le_iff [of c 1024, simplified])
  then have "round_double q < pow2 1024" using le pow2_numeral_bounds(4) by simp
  then have "float_of q = Inr (round_double q)" using assms(1) by (intro float_of_Inr)
  then show ?thesis using le round_double_nonneg [OF assms(1)] by simp
qed

lemma float_of_range:
  assumes "0 \<le> q" and "q < pow2 1023"
  shows "float_of q = Inr (round_double q)"
proof (cases "q \<le> 1")
  case True
  then have "q \<le> of_int 1" by simp
  from float_of_le_int [OF assms(1) this] show ?thesis
    by (auto simp: float_of_def Let_def split: if_splits)
next
  case False
  then have q1: "1 < q" by simp
  then have qpos: "0 < q" by simp
  have "pow2 0 \<le> q" using q1 by (simp add: pow2_def)
  then have "0 \<le> ilog2 q" using qpos by (intro ilog2_ge)
  then have "round_double q \<le> pow2 (ilog2 q + 1)" using qpos by (intro round_double_le_pow2) simp_all
  moreover have "ilog2 q < 1023" using qpos assms(2) by (rule ilog2_less)
  then have "pow2 (ilog2 q + 1) \<le> pow2 1023" by (simp add: pow2_le_iff)
  ultimately have "round_double q < pow2 1024" using pow2_numeral_bounds(3) by simp
  then show ?thesis using assms(1) by (intro float_of_Inr)
qed

section \<open>The progress percentage\<close>

lemma py_int_floor: "0 \<le> y \<Longrightarrow> py_int y = \<lfloor>y\<rfloor>"
  by (simp add: py_int_def)

lemma hook_percent_unknown: "\<not> truthy (hook_total d) \<Longrightarrow> hook_percent d = Inr 0"
  by (simp add: hook_percent_def)

lemma hook_percent_bounded:
  assumes tr: "truthy (hook_total d)"
    and dl: "hook_downloaded d = Some a"
    and d0: "0 \<le> a"
    and dt: "a \<le> the (hook_total d)"
  shows "\<exists>x y. truediv a (the (hook_total d)) = Inr x \<and> fmul x 100 = Inr y \<and>
          hook_percent d = Inr \<lfloor>y\<rfloor> \<and> 0 \<le> \<lfloor>y\<rfloor> \<and> \<lfloor>y\<rfloor> \<le> 100"
proof -
  define t where "t = the (hook_total d)"
  have t0: "t \<noteq> 0" using tr by (auto simp: truthy_def t_def split: option.splits)
  have tpos: "0 < t" using t0 d0 dt by (simp add: t_def)
  have q0: "0 \<le> a / t" using d0 tpos by simp
  have q1: "a / t \<le> of_int 1" using dt tpos by (simp add: t_def)
  from float_of_le_int [OF q0 q1] obtain x where
    x: "float_of (a / t) = Inr x" "0 \<le> x" "x \<le> 1" by auto
  have z0: "0 \<le> x * 100" using x(2) by simp
  have z1: "x * 100 \<le> of_int 100" using x(3) by simp
  from float_of_le_int [OF z0 z1] obtain y where
    y: "float_of (x * 100) = Inr y" "0 \<le> y" "y \<le> 100" by auto
  have td: "truediv a t = Inr x" using t0 x(1) by (simp add: truediv_def)
  have fm: "fmul x 100 = Inr y" using y(1) by (simp add: fmul_def)
  have hp: "hook_percent d = Inr \<lfloor>y\<rfloor>"
    using tr dl td fm y(2) by (simp add: hook_percent_def t_def py_int_floor)
  have "0 \<le> \<lfloor>y\<rfloor>" using y(2) by simp
  moreover have "\<lfloor>y\<rfloor> \<le> 100" using y(3) by (simp add: floor_le_iff)
  ultimately show ?thesis using td fm hp by (auto simp: t_def)
qed

lemma float_of_InrD: "float_of q = Inr x \<Longrightarrow> x = round_double q"
  by (auto simp: float_of_def Let_def split: if_splits)

lemma round_double_err:
  assumes "0 < q"
  shows "\<bar>round_double q - q\<bar> \<le> pow2 (max (ilog2 q) (- 1022) - 53)"
proof -
  define e where "e = max (ilog2 q) (- 1022)"
  define u where "u = pow2 (e - 52)"
  have upos: "0 < u" by (simp add: u_def pow2_pos)
  have rd: "round_double q = of_int (round_half_even (q / u)) * u"
    using assms by (simp add: round_double_def Let_def u_def e_def)
  have "\<bar>of_int (round_half_even (q / u)) - q / u\<bar> * u \<le> (1 / 2) * u"
    using rhe_near [of "q / u"] upos by (intro mult_right_mono) simp_all
  moreover have "\<bar>of_int (round_half_even (q / u)) - q / u\<bar> * u = \<bar>round_double q - q\<bar>"
  proof -
    have "\<bar>of_int (round_half_even (q / u)) - q / u\<bar> * u
          = \<bar>(of_int (round_half_even (q / u)) - q / u) * u\<bar>"
      using upos by (simp add: abs_mult)
    also have "(of_int (round_half_even (q / u)) - q / u) * u = round_double q - q"
      using upos by (simp add: rd left_diff_distrib)
    finally show ?thesis .
  qed
  moreover have "(1 / 2) * u = pow2 (e - 53)"
  proof -
    have "pow2 (e - 52) = pow2 (e - 53 + 1)" by simp
    also have "\<dots> = pow2 (e - 53) * pow2 1" by (simp only: pow2_add)
    also have "\<dots> = pow2 (e - 53) * 2" by (simp add: pow2_def)
    finally show ?thesis by (simp add: u_def)
  qed
  ultimately show ?thesis by (simp add: e_def)
qed

lemma round_double_err_le:
  assumes "0 \<le> q" and "q < pow2 n" and "- 1021 \<le> n"
  shows "\<bar>round_double q - q\<bar> \<le> pow2 (n - 54)"
proof (cases "q = 0")
  case True then show ?thesis using pow2_pos [of "n - 54"] by (simp add: round_double_def)
next
  case False
  then have qpos: "0 < q" using assms(1) by simp
  have "ilog2 q < n" using qpos assms(2) by (rule ilog2_less)
  then have "max (ilog2 q) (- 1022) - 53 \<le> n - 54" using assms(3) by simp
  then have "pow2 (max (ilog2 q) (- 1022) - 53) \<le> pow2 (n - 54)" by (simp only: pow2_le_iff)
  with round_double_err [OF qpos] show ?thesis by simp
qed

lemma hook_percent_near:
  assumes tr: "truthy (hook_total d)"
    and dl: "hook_downloaded d = Some a"
    and d0: "0 \<le> a"
    and dt: "a \<le> the (hook_total d)"
    and hp: "hook_percent d = Inr p"
  shows "\<bar>p - \<lfloor>a / the (hook_total d) * 100\<rfloor>\<bar> \<le> 1"
proof -
  define q where "q = a / the (hook_total d)"
  from hook_percent_bounded [OF tr dl d0 dt] obtain x y where
    xy: "truediv a (the (hook_total d)) = Inr x" "fmul x 100 = Inr y"
        "hook_percent d = Inr \<lfloor>y\<rfloor>" by blast
  have p: "p = \<lfloor>y\<rfloor>" using hp xy(3) by simp
  have t0: "the (hook_total d) \<noteq> 0" using tr by (auto simp: truthy_def split: option.splits)
  then have tpos: "0 < the (hook_total d)" using d0 dt by simp
  have q0: "0 \<le> q" using d0 tpos by (simp add: q_def)
  have q1: "q \<le> 1" using dt tpos by (simp add: q_def)
  have x: "x = round_double q" using xy(1) t0 by (simp add: truediv_def q_def float_of_InrD)
  have y: "y = round_double (x * 100)" using xy(2) by (simp add: fmul_def float_of_InrD)
  have "q < pow2 1" using q1 by (simp add: pow2_def)
  from round_double_err_le [OF q0 this] have e1: "\<bar>x - q\<bar> \<le> pow2 (- 53)" by (simp add: x)
  have x0: "0 \<le> x" using round_double_nonneg [OF q0] by (simp add: x)
  have x1: "x \<le> 1"
  proof (cases "q = 0")
    case True then show ?thesis by (simp add: x round_double_def)
  next
    case False
    then have "0 < q" using q0 by simp
    moreover have "q \<le> of_int 1" using q1 by simp
    ultimately have "round_double q \<le> of_int 1" by (rule round_double_le_int) simp
    then show ?thesis by (simp add: x)
  qed
  have z0: "0 \<le> x * 100" using x0 by simp
  have "x * 100 < pow2 7" using x1 by (simp add: pow2_def)
  from round_double_err_le [OF z0 this] have e2: "\<bar>y - x * 100\<bar> \<le> pow2 (- 47)" by (simp add: y)
  have v53: "pow2 (- 53) = 1 / 9007199254740992" by (simp add: pow2_def)
  have v47: "pow2 (- 47) = 1 / 140737488355328" by (simp add: pow2_def)
  have "\<bar>y - q * 100\<bar> < 1" using e1 e2 unfolding v53 v47 by linarith
  then have "\<bar>\<lfloor>y\<rfloor> - \<lfloor>q * 100\<rfloor>\<bar> \<le> 1" by linarith
  then show ?thesis by (simp add: p q_def)
qed

lemma round_double_ge_scaled:
  assumes "0 < q" and "c \<le> q" and "c / pow2 (max (ilog2 q) (- 1022) - 52) = of_int k"
  shows "c \<le> round_double q"
proof -
  define u where "u = pow2 (max (ilog2 q) (- 1022) - 52)"
  have upos: "0 < u" by (simp add: u_def pow2_pos)
  have "c / u \<le> q / u" using assms(2) upos by (simp add: divide_right_mono)
  then have "of_int k \<le> q / u" using assms(3) by (simp add: u_def)
  then have "k \<le> round_half_even (q / u)" by (rule rhe_ge)
  then have "(of_int k :: rat) \<le> of_int (round_half_even (q / u))" by (simp only: of_int_le_iff)
  then have "of_int k * u \<le> of_int (round_half_even (q / u)) * u"
    using upos by (simp add: mult_right_mono)
  moreover have "of_int k * u = c" using assms(3) upos by (simp add: u_def field_simps)
  ultimately show ?thesis using assms(1) by (simp add: round_double_def Let_def u_def)
qed

lemma round_double_ge_pow2:
  assumes "0 < q" and "- 1022 \<le> ilog2 q"
  shows "pow2 (ilog2 q) \<le> round_double q"
proof -
  have e: "max (ilog2 q) (- 1022) = ilog2 q" using assms(2) by simp
  have n: "pow2 (52 - ilog2 q) = 1 / pow2 (ilog2 q - 52)"
    using pow2_neg [of "ilog2 q - 52"] by simp
  have "pow2 (ilog2 q) / pow2 (max (ilog2 q) (- 1022) - 52)
        = pow2 (ilog2 q) * pow2 (52 - ilog2 q)"
    by (simp add: e n)
  also have "\<dots> = pow2 52" by (simp add: pow2_add [symmetric])
  also have "\<dots> = of_int (2 ^ 52)" by (simp add: pow2_def)
  finally show ?thesis
    using assms(1) ilog2_bounds(1) [OF assms(1)]
    by (intro round_double_ge_scaled [where k = "2 ^ 52"]) simp_all
qed

lemma round_double_ge_int:
  assumes "0 < c" and "of_int c \<le> q" and "c \<le> 2 ^ 53"
  shows "of_int c \<le> round_double q"
proof -
  have c1: "(1::rat) \<le> of_int c" using assms(1) by simp
  then have q1: "1 \<le> q" using assms(2) by simp
  then have qpos: "0 < q" by simp
  have "pow2 0 \<le> q" using q1 by (simp add: pow2_def)
  then have e0: "0 \<le> ilog2 q" using qpos by (intro ilog2_ge)
  show ?thesis
  proof (cases "ilog2 q \<le> 52")
    case True
    define j where "j = 52 - ilog2 q"
    have j0: "0 \<le> j" using True by (simp add: j_def)
    have "of_int c / pow2 (max (ilog2 q) (- 1022) - 52) = of_int c / pow2 (- j)"
      using e0 by (simp add: j_def)
    also have "\<dots> = of_int c * pow2 j" by (simp add: pow2_neg)
    also have "\<dots> = of_int (c * 2 ^ nat j)" using j0 by (simp add: pow2_of_nat)
    finally show ?thesis using qpos assms(2) by (rule round_double_ge_scaled [rotated 2])
  next
    case False
    then have "53 \<le> ilog2 q" by simp
    then have "pow2 53 \<le> pow2 (ilog2 q)" by (simp only: pow2_le_iff)
    moreover have "pow2 (ilog2 q) \<le> round_double q"
      using qpos e0 by (intro round_double_ge_pow2) simp_all
    moreover have "(of_int c :: rat) \<le> of_int (2 ^ 53)" using assms(3) by (simp only: of_int_le_iff)
    moreover have "(of_int (2 ^ 53) :: rat) = pow2 53" by (simp add: pow2_def)
    ultimately show ?thesis by simp
  qed
qed

lemma hook_percent_parts:
  assumes "truthy (hook_total d)" and "hook_downloaded d = Some a" and "hook_percent d = Inr p"
  shows "\<exists>x y. x = round_double (a / the (hook_total d)) \<and> y = round_double (x * 100) \<and> p = py_int y"
proof -
  from assms obtain x y where
    xy: "truediv a (the (hook_total d)) = Inr x" "fmul x 100 = Inr y" "p = py_int y"
    by (auto simp: hook_percent_def split: sum.splits)
  have "x = round_double (a / the (hook_total d))"
    using xy(1) by (auto simp: truediv_def float_of_InrD split: if_splits)
  moreover have "y = round_double (x * 100)" using xy(2) by (simp add: fmul_def float_of_InrD)
  ultimately show ?thesis using xy(3) by blast
qed

lemma hook_percent_nonneg:
  assumes "truthy (hook_total d)" and "hook_downloaded d = Some a" and "0 \<le> a"
    and "0 \<le> the (hook_total d)" and "hook_percent d = Inr p"
  shows "0 \<le> p"
proof -
  have q0: "0 \<le> a / the (hook_total d)" using assms(3,4) by simp
  from hook_percent_parts [OF assms(1,2,5)] obtain x y where
    xy: "x = round_double (a / the (hook_total d))" "y = round_double (x * 100)" "p = py_int y"
    by blast
  have "0 \<le> x" using round_double_nonneg [OF q0] by (simp add: xy(1))
  then have "0 \<le> x * 100" by simp
  then have "0 \<le> y" using round_double_nonneg by (simp add: xy(2))
  then show ?thesis by (simp add: xy(3) py_int_floor)
qed

lemma hook_percent_full:
  assumes "truthy (hook_total d)" and "hook_downloaded d = Some a"
    and tp: "0 < the (hook_total d)" and ge: "the (hook_total d) \<le> a"
    and "hook_percent d = Inr p"
  shows "100 \<le> p"
proof -
  from hook_percent_parts [OF assms(1,2,5)] obtain x y where
    xy: "x = round_double (a / the (hook_total d))" "y = round_double (x * 100)" "p = py_int y"
    by blast
  have "of_int 1 \<le> a / the (hook_total d)" using tp ge by simp
  then have "of_int 1 \<le> round_double (a / the (hook_total d))"
    by (intro round_double_ge_int) simp_all
  then have x1: "1 \<le> x" by (simp add: xy(1))
  then have "of_int 100 \<le> x * 100" by simp
  then have "of_int 100 \<le> round_double (x * 100)"
    by (intro round_double_ge_int) simp_all
  then have y100: "100 \<le> y" by (simp add: xy(2))
  then have "0 \<le> y" by simp
  then have "p = \<lfloor>y\<rfloor>" by (simp add: xy(3) py_int_floor)
  moreover have "100 \<le> \<lfloor>y\<rfloor>" using y100 by (simp add: le_floor_iff)
  ultimately show ?thesis by simp
qed

lemma update_job_Inr:
  "update_job j f jobs = Inr jobs' \<Longrightarrow> \<exists>m. map_of jobs j = Some m \<and> jobs' = AList.update j (f m) jobs"
  by (auto simp: update_job_def split: option.splits)

lemma map_of_update_same: "map_of (AList.update j v jobs) j = Some v"
  by (simp add: update_conv')

lemma map_of_update_other: "k \<noteq> j \<Longrightarrow> map_of (AList.update j v jobs) k = map_of jobs k"
  by (simp add: update_conv')

lemma hook_stores:
  assumes "ev_status d = Some ''downloading'' \<or> ev_status d = Some ''finished''"
    and "map_of jobs j = Some m" and "hook j sdir fs d jobs = Inr jobs'"
  shows "\<exists>m' p s. map_of jobs' j = Some m' \<and> hook_percent d = Inr p \<and> hook_speed (ev_speed d) = Inr s \<and>
           m' = m\<lparr>progress_percent := Some p, current_title := Some (ev_title d), speed := Some s,
                  current_episode := Some (count_media_files fs sdir ''.mp4'')\<rparr>"
  using assms
  by (auto simp: hook_def Let_def map_of_update_same split: sum.splits if_splits)

text \<open>
  C3, as the claim states it, fails. With an estimate of 100 bytes and 200 bytes
  downloaded the hook computes 200, which is outside \<open>0..100\<close>: there is no clamp. And
  the percentage is the truncated product of two roundings, not the floor of the exact
  ratio: 29 of 100 bytes give 28.
\<close>

theorem stored_percent_counterexample:
  "hook_percent \<lparr>ev_status = Some ''downloading'', total_bytes = None, total_bytes_estimate = Some 100,
                  downloaded_bytes = Holds (Some 200), ev_title = ''Episode 1'', ev_speed = None\<rparr> = Inr 200
   \<and> hook_percent \<lparr>ev_status = Some ''downloading'', total_bytes = Some 100, total_bytes_estimate = None,
                  downloaded_bytes = Holds (Some 29), ev_title = ''Episode 1'', ev_speed = None\<rparr> = Inr 28"
  by code_simp

text \<open>
  C3 (as amended). The stored \<open>progress_percent\<close> is the integer the hook computes:
  \<open>0\<close> when no nonzero total is known, otherwise \<open>int((downloaded / total) * 100)\<close> in
  double precision (a \<open>downloaded_bytes\<close> that holds \<open>None\<close> makes that a \<open>TypeError\<close>). For
  non-negative counts it is never negative. When the downloaded count does not exceed
  the total it lies in \<open>0..100\<close> and is within one of the floor of the exact ratio. When
  the downloaded count is at least the total it is at least 100, with no upper bound.
  The runner stores \<open>0\<close> at the start and \<open>100\<close> on finish.
\<close>

theorem stored_percent:
  "(\<not> truthy (hook_total d) \<longrightarrow> hook_percent d = Inr 0) \<and>
   (truthy (hook_total d) \<and> hook_downloaded d = None \<longrightarrow> hook_percent d = Inl TypeError) \<and>
   (truthy (hook_total d) \<and> hook_downloaded d = Some a \<and> 0 \<le> a \<and> 0 \<le> the (hook_total d) \<longrightarrow>
      (\<forall>p. hook_percent d = Inr p \<longrightarrow> 0 \<le> p)) \<and>
   (truthy (hook_total d) \<and> hook_downloaded d = Some a \<and> 0 \<le> a \<and> a \<le> the (hook_total d) \<longrightarrow>
      (\<exists>p. hook_percent d = Inr p \<and> 0 \<le> p \<and> p \<le> 100 \<and>
           \<bar>p - \<lfloor>a / the (hook_total d) * 100\<rfloor>\<bar> \<le> 1)) \<and>
   (truthy (hook_total d) \<and> hook_downloaded d = Some a \<and> 0 < the (hook_total d) \<and>
    the (hook_total d) \<le> a \<longrightarrow>
      (\<forall>p. hook_percent d = Inr p \<longrightarrow> 100 \<le> p)) \<and>
   ((ev_status d = Some ''downloading'' \<or> ev_status d = Some ''finished'') \<and>
      map_of jobs j = Some m \<and> hook j sdir fs d jobs = Inr jobs' \<longrightarrow>
      (\<exists>m' p. map_of jobs' j = Some m' \<and> hook_percent d = Inr p \<and> progress_percent m' = Some p)) \<and>
   (run_start j now jobs = Inr jobs1 \<longrightarrow>
      (\<exists>m'. map_of jobs1 j = Some m' \<and> progress_percent m' = Some 0)) \<and>
   (run_finished j now sdir jobs = Inr jobs2 \<longrightarrow>
      (\<exists>m'. map_of jobs2 j = Some m' \<and> progress_percent m' = Some 100))"
proof (intro conjI impI allI)
  assume "\<not> truthy (hook_total d)"
  then show "hook_percent d = Inr 0" by (rule hook_percent_unknown)
next
  assume "truthy (hook_total d) \<and> hook_downloaded d = None"
  then show "hook_percent d = Inl TypeError" by (simp add: hook_percent_def)
next
  fix p
  assume "truthy (hook_total d) \<and> hook_downloaded d = Some a \<and> 0 \<le> a \<and> 0 \<le> the (hook_total d)"
    and "hook_percent d = Inr p"
  then show "0 \<le> p" using hook_percent_nonneg by blast
next
  assume h: "truthy (hook_total d) \<and> hook_downloaded d = Some a \<and> 0 \<le> a \<and> a \<le> the (hook_total d)"
  then obtain y :: rat where "hook_percent d = Inr \<lfloor>y\<rfloor>" "0 \<le> \<lfloor>y\<rfloor>" "\<lfloor>y\<rfloor> \<le> 100"
    using hook_percent_bounded [of d a] by blast
  moreover from this h have "\<bar>\<lfloor>y\<rfloor> - \<lfloor>a / the (hook_total d) * 100\<rfloor>\<bar> \<le> 1"
    using hook_percent_near [of d a "\<lfloor>y\<rfloor>"] by blast
  ultimately show "\<exists>p. hook_percent d = Inr p \<and> 0 \<le> p \<and> p \<le> 100 \<and>
           \<bar>p - \<lfloor>a / the (hook_total d) * 100\<rfloor>\<bar> \<le> 1" by blast
next
  fix p
  assume "truthy (hook_total d) \<and> hook_downloaded d = Some a \<and> 0 < the (hook_total d) \<and>
    the (hook_total d) \<le> a"
    and "hook_percent d = Inr p"
  then show "100 \<le> p" using hook_percent_full by blast
next
  assume "(ev_status d = Some ''downloading'' \<or> ev_status d = Some ''finished'') \<and>
      map_of jobs j = Some m \<and> hook j sdir fs d jobs = Inr jobs'"
  then obtain m' p s where "map_of jobs' j = Some m'" "hook_percent d = Inr p"
      "m' = m\<lparr>progress_percent := Some p, current_title := Some (ev_title d), speed := Some s,
                  current_episode := Some (count_media_files fs sdir ''.mp4'')\<rparr>"
    using hook_stores [of d jobs j m sdir fs jobs'] by blast
  then show "\<exists>m' p. map_of jobs' j = Some m' \<and> hook_percent d = Inr p \<and> progress_percent m' = Some p"
    by simp
next
  assume "run_start j now jobs = Inr jobs1"
  then show "\<exists>m'. map_of jobs1 j = Some m' \<and> progress_percent m' = Some 0"
    by (auto simp: run_start_def map_of_update_same dest!: update_job_Inr)
next
  assume "run_finished j now sdir jobs = Inr jobs2"
  then show "\<exists>m'. map_of jobs2 j = Some m' \<and> progress_percent m' = Some 100"
    by (auto simp: run_finished_def map_of_update_same dest!: update_job_Inr)
qed

theorem stored_percent_witness:
  "truthy (hook_total ev_half) \<and> hook_downloaded ev_half = Some 50 \<and>
   (0::rat) \<le> 50 \<and> 50 \<le> the (hook_total ev_half) \<and>
   (\<exists>p. hook_percent ev_half = Inr p \<and> 0 \<le> p \<and> p \<le> 100 \<and>
        \<bar>p - \<lfloor>50 / the (hook_total ev_half) * 100\<rfloor>\<bar> \<le> 1)"
proof -
  have h: "truthy (hook_total ev_half) \<and> hook_downloaded ev_half = Some 50 \<and>
           (0::rat) \<le> 50 \<and> 50 \<le> the (hook_total ev_half)"
    by (simp add: ev_half_def truthy_def hook_total_def hook_downloaded_def)
  with stored_percent [of ev_half 50] show ?thesis by blast
qed

section \<open>The speed string\<close>

lemma digit_char_0: "digit_char 0 = CHR ''0''"
  by code_simp

lemma dec_int_small: "n < 10 \<Longrightarrow> dec_int n = [digit_char n]"
  by (simp add: dec_int.simps)

lemma dec_int_large: "10 \<le> n \<Longrightarrow> dec_int n = dec_int (n div 10) @ [digit_char (n mod 10)]"
  by (subst dec_int.simps) simp

lemma zfill2_dec_int:
  assumes "0 \<le> k" and "k < 100"
  shows "zfill 2 (dec_int k) = [digit_char (k div 10), digit_char (k mod 10)]"
proof (cases "k < 10")
  case True
  then show ?thesis using assms(1) by (simp add: dec_int_small zfill_def digit_char_0)
next
  case False
  then have "10 \<le> k" by simp
  moreover have "k div 10 < 10" using assms by simp
  ultimately show ?thesis by (simp add: dec_int_large dec_int_small zfill_def)
qed

lemma fmt_f_2_shape:
  assumes "0 \<le> x"
  shows "\<exists>n\<ge>0. fmt_f 2 x = dec_int (n div 100) @ ''.'' @ [digit_char (n mod 100 div 10), digit_char (n mod 10)]
           \<and> \<bar>of_int n / 100 - x\<bar> \<le> 1 / 200"
proof -
  define n where "n = round_half_even (x * 100)"
  have "of_int 0 \<le> x * 100" using assms by simp
  then have n0: "0 \<le> n" unfolding n_def by (rule rhe_ge)
  have "\<bar>of_int n - x * 100\<bar> \<le> 1 / 2" using rhe_near [of "x * 100"] by (simp add: n_def)
  then have near: "\<bar>of_int n / 100 - x\<bar> \<le> 1 / 200" by (simp add: abs_if split: if_splits)
  have "n mod 100 mod 10 = n mod 10" by (simp add: mod_mod_cancel)
  then have "zfill 2 (dec_int (n mod 100)) = [digit_char (n mod 100 div 10), digit_char (n mod 10)]"
    using zfill2_dec_int [of "n mod 100"] by simp
  then have "fmt_f 2 x = dec_int (n div 100) @ ''.'' @ [digit_char (n mod 100 div 10), digit_char (n mod 10)]"
    using assms by (simp add: fmt_f_def Let_def n_def abs_if)
  with near n0 show ?thesis by blast
qed

lemma fmt_f_0_shape:
  assumes "0 \<le> x"
  shows "\<exists>n\<ge>0. fmt_f 0 x = dec_int n \<and> \<bar>of_int n - x\<bar> \<le> 1 / 2"
proof -
  define n where "n = round_half_even x"
  have "of_int 0 \<le> x" using assms by simp
  then have n0: "0 \<le> n" unfolding n_def by (rule rhe_ge)
  have near: "\<bar>of_int n - x\<bar> \<le> 1 / 2" using rhe_near [of x] by (simp add: n_def)
  have "fmt_f 0 x = dec_int n" using assms by (simp add: fmt_f_def Let_def n_def abs_if)
  with near n0 show ?thesis by blast
qed

lemma truediv_range:
  assumes "0 \<le> r" and "r < 2 ^ 1023" and "1 \<le> c"
  shows "truediv r c = Inr (round_double (r / c))"
proof -
  have "r / c \<le> r / 1" using assms(1,3) by (intro frac_le) simp_all
  then have "r / c \<le> r" by simp
  then have "r / c < pow2 1023" using assms(2) by (simp add: pow2_def)
  moreover have "0 \<le> r / c" using assms(1,3) by simp
  ultimately have "float_of (r / c) = Inr (round_double (r / c))" by (intro float_of_range)
  then show ?thesis using assms(3) by (simp add: truediv_def)
qed

lemma hook_speed_formula:
  assumes "0 < r" and "r < 2 ^ 1023"
  shows "hook_speed (Some r) =
           Inr (if 1024 ^ 3 < r then fmt_f 2 (round_double (r / 1024 ^ 3)) @ '' GiB/s''
                else if 1024 ^ 2 < r then fmt_f 2 (round_double (r / 1024 ^ 2)) @ '' MiB/s''
                else if 1024 < r then fmt_f 2 (round_double (r / 1024)) @ '' KiB/s''
                else fmt_f 0 (round_double r) @ '' B/s'')"
proof -
  have r0: "0 \<le> r" using assms(1) by simp
  have t: "truthy (Some r)" using assms(1) by (simp add: truthy_def)
  have a: "truediv r (1024 ^ 3) = Inr (round_double (r / 1024 ^ 3))"
    by (rule truediv_range [OF r0 assms(2)]) simp
  have b: "truediv r (1024 ^ 2) = Inr (round_double (r / 1024 ^ 2))"
    by (rule truediv_range [OF r0 assms(2)]) simp
  have c: "truediv r 1024 = Inr (round_double (r / 1024))"
    by (rule truediv_range [OF r0 assms(2)]) simp
  have d: "float_of r = Inr (round_double r)"
    using r0 assms(2) by (intro float_of_range) (simp_all add: pow2_def)
  consider "1024 ^ 3 < r" | "\<not> 1024 ^ 3 < r" "1024 ^ 2 < r" | "\<not> 1024 ^ 3 < r" "\<not> 1024 ^ 2 < r" "1024 < r"
    | "\<not> 1024 ^ 3 < r" "\<not> 1024 ^ 2 < r" "\<not> 1024 < r" by blast
  then show ?thesis
  proof cases
    case 1 then show ?thesis using t a by (simp add: hook_speed_def)
  next
    case 2 then show ?thesis using t b by (simp add: hook_speed_def)
  next
    case 3 then show ?thesis using t c by (simp add: hook_speed_def)
  next
    case 4 then show ?thesis using t d by (simp add: hook_speed_def)
  qed
qed

lemma hook_speed_examples:
  "hook_speed (Some 500) = Inr ''500 B/s''"
  "hook_speed (Some 2048) = Inr ''2.00 KiB/s''"
  "hook_speed (Some (5 * 1024 * 1024)) = Inr ''5.00 MiB/s''"
  "hook_speed (Some (3 * 1024 ^ 3)) = Inr ''3.00 GiB/s''"
  by code_simp+

text \<open>
  C2, at the thresholds themselves. The comparisons of the hook are strict: a rate of
  exactly 1024 is printed in bytes, and exactly \<open>1024^3\<close> in MiB.
\<close>

theorem speed_thresholds_counterexample:
  "hook_speed (Some 1024) = Inr ''1024 B/s'' \<and> hook_speed (Some (1024 ^ 3)) = Inr ''1024.00 MiB/s''"
  by code_simp

text \<open>
  C2 (as amended). The speed string is empty when the rate is absent or zero. For a
  rate \<open>r\<close> above zero the unit is chosen by strict comparisons: \<open>r > 1024^3\<close> gives
  GiB/s, otherwise \<open>r > 1024^2\<close> gives MiB/s, otherwise \<open>r > 1024\<close> gives KiB/s, each the
  quotient with two decimals; otherwise bytes with none. The digits printed are the
  decimal nearest to the value formatted. 500, 2048, \<open>5 * 1024 * 1024\<close> and
  \<open>3 * 1024^3\<close> give the four strings of the specification.
\<close>

theorem speed_format:
  "hook_speed None = Inr [] \<and> hook_speed (Some 0) = Inr [] \<and>
   (0 < r \<and> r < 2 ^ 1023 \<longrightarrow>
      hook_speed (Some r) =
        Inr (if 1024 ^ 3 < r then fmt_f 2 (round_double (r / 1024 ^ 3)) @ '' GiB/s''
             else if 1024 ^ 2 < r then fmt_f 2 (round_double (r / 1024 ^ 2)) @ '' MiB/s''
             else if 1024 < r then fmt_f 2 (round_double (r / 1024)) @ '' KiB/s''
             else fmt_f 0 (round_double r) @ '' B/s'')) \<and>
   (0 \<le> x \<longrightarrow>
      (\<exists>n\<ge>0. fmt_f 2 x = dec_int (n div 100) @ ''.'' @ [digit_char (n mod 100 div 10), digit_char (n mod 10)]
           \<and> \<bar>of_int n / 100 - x\<bar> \<le> 1 / 200) \<and>
      (\<exists>n\<ge>0. fmt_f 0 x = dec_int n \<and> \<bar>of_int n - x\<bar> \<le> 1 / 2)) \<and>
   hook_speed (Some 500) = Inr ''500 B/s'' \<and>
   hook_speed (Some 2048) = Inr ''2.00 KiB/s'' \<and>
   hook_speed (Some (5 * 1024 * 1024)) = Inr ''5.00 MiB/s'' \<and>
   hook_speed (Some (3 * 1024 ^ 3)) = Inr ''3.00 GiB/s''"
proof (intro conjI impI)
  show "hook_speed None = Inr []" by (simp add: hook_speed_def truthy_def)
  show "hook_speed (Some 0) = Inr []" by (simp add: hook_speed_def truthy_def)
next
  assume "0 < r \<and> r < 2 ^ 1023"
  then show "hook_speed (Some r) =
        Inr (if 1024 ^ 3 < r then fmt_f 2 (round_double (r / 1024 ^ 3)) @ '' GiB/s''
             else if 1024 ^ 2 < r then fmt_f 2 (round_double (r / 1024 ^ 2)) @ '' MiB/s''
             else if 1024 < r then fmt_f 2 (round_double (r / 1024)) @ '' KiB/s''
             else fmt_f 0 (round_double r) @ '' B/s'')"
    using hook_speed_formula [of r] by blast
next
  assume "0 \<le> x"
  then show "\<exists>n\<ge>0. fmt_f 2 x = dec_int (n div 100) @ ''.'' @ [digit_char (n mod 100 div 10), digit_char (n mod 10)]
           \<and> \<bar>of_int n / 100 - x\<bar> \<le> 1 / 200" by (rule fmt_f_2_shape)
next
  assume "0 \<le> x"
  then show "\<exists>n\<ge>0. fmt_f 0 x = dec_int n \<and> \<bar>of_int n - x\<bar> \<le> 1 / 2" by (rule fmt_f_0_shape)
qed (rule hook_speed_examples)+

theorem speed_format_witness:
  "(0::rat) < 2048 \<and> (2048::rat) < 2 ^ 1023 \<and>
   hook_speed (Some 2048) = Inr (fmt_f 2 (round_double (2048 / 1024)) @ '' KiB/s'') \<and>
   (0::rat) \<le> 2 \<and>
   (\<exists>n\<ge>0. fmt_f 2 2 = dec_int (n div 100) @ ''.'' @ [digit_char (n mod 100 div 10), digit_char (n mod 10)]
        \<and> \<bar>of_int n / 100 - (2::rat)\<bar> \<le> 1 / 200)"
proof -
  have h: "(0::rat) < 2048 \<and> (2048::rat) < 2 ^ 1023" by simp
  have k: "(0::rat) \<le> 2" by simp
  from speed_format [of 2048 2] h k show ?thesis by simp
qed

section \<open>The output names\<close>

lemma of_char_digit_char: "0 \<le> d \<Longrightarrow> d < 10 \<Longrightarrow> (of_char (digit_char d) :: int) = 48 + d"
  by (simp add: digit_char_def of_char_of)

lemma is_digit_digit_char: "0 \<le> d \<Longrightarrow> d < 10 \<Longrightarrow> is_digit (digit_char d)"
  by (simp add: is_digit_def of_char_digit_char)

lemma dec_int_digits: "0 \<le> n \<Longrightarrow> list_all is_digit (dec_int n)"
proof (induction n rule: dec_int.induct)
  case (1 n)
  show ?case
  proof (cases "n < 10")
    case True
    then show ?thesis using "1.prems" by (simp add: dec_int_small is_digit_digit_char)
  next
    case False
    then have "list_all is_digit (dec_int (n div 10))" using 1 by simp
    moreover have "is_digit (digit_char (n mod 10))" by (simp add: is_digit_digit_char)
    ultimately show ?thesis using False by (simp add: dec_int_large)
  qed
qed

lemma digits_value_snoc: "digits_value (s @ [c]) = 10 * digits_value s + (of_char c - 48)"
  by (simp add: digits_value_def)

lemma digits_value_dec_int: "0 \<le> n \<Longrightarrow> digits_value (dec_int n) = n"
proof (induction n rule: dec_int.induct)
  case (1 n)
  show ?case
  proof (cases "n < 10")
    case True
    then show ?thesis using "1.prems" by (simp add: dec_int_small digits_value_def of_char_digit_char)
  next
    case False
    then have "digits_value (dec_int (n div 10)) = n div 10" using 1 by simp
    then show ?thesis using False
      by (simp add: dec_int_large digits_value_snoc of_char_digit_char)
  qed
qed

lemma dec_int_length2: "10 \<le> n \<Longrightarrow> 2 \<le> length (dec_int n)"
proof -
  assume h: "10 \<le> n"
  have "dec_int (n div 10) \<noteq> []" by (subst dec_int.simps) simp
  then have "1 \<le> length (dec_int (n div 10))" by (cases "dec_int (n div 10)") simp_all
  then show ?thesis using h by (simp add: dec_int_large)
qed

lemma fmt_02d_one_digit: "0 \<le> i \<Longrightarrow> i \<le> 9 \<Longrightarrow> fmt_02d i = [CHR ''0'', digit_char i]"
  by (simp add: fmt_02d_def dec_int_small zfill_def)

lemma fmt_02d_more_digits: "10 \<le> i \<Longrightarrow> fmt_02d i = dec_int i"
  using dec_int_length2 [of i] by (simp add: fmt_02d_def zfill_def)

lemma is_digit_not_slash: "is_digit c \<Longrightarrow> c \<noteq> CHR ''/''"
  by (auto simp: is_digit_def)

lemma fmt_02d_no_slash: "CHR ''/'' \<notin> set (fmt_02d i)"
proof -
  have a: "0 \<le> n \<Longrightarrow> CHR ''/'' \<notin> set (dec_int n)" for n
    using dec_int_digits [of n] is_digit_not_slash by (auto simp: list_all_iff)
  show ?thesis by (auto simp: fmt_02d_def zfill_def a)
qed

lemma split_slash_no_slash: "CHR ''/'' \<notin> set s \<Longrightarrow> split_slash s = [s]"
  by (induction s) auto

lemma joinpath_single:
  assumes "CHR ''/'' \<notin> set s" and "s \<noteq> []" and "s \<noteq> ''.''"
  shows "joinpath base s = base @ [s]"
proof -
  have "\<not> startswith s ''/''" using assms(1,2) by (cases s) (auto simp: startswith_def)
  then show ?thesis using assms by (simp add: joinpath_def parse_parts_def split_slash_no_slash)
qed

lemma season_dir_below: "season_dir base r = main_dir base r @ [season_folder_name r]"
proof -
  have "CHR ''/'' \<notin> set (season_folder_name r)"
    using fmt_02d_no_slash by (simp add: season_folder_name_def)
  moreover have "season_folder_name r \<noteq> []" "season_folder_name r \<noteq> ''.''"
    by (simp_all add: season_folder_name_def)
  ultimately show ?thesis unfolding season_dir_def by (rule joinpath_single)
qed

lemma main_dir_below:
  assumes "CHR ''/'' \<notin> set (name r)" and "CHR ''/'' \<notin> set (imdbid r)"
  shows "main_dir base r = base @ [main_folder_name r]"
proof -
  have "set (strip (name r)) \<subseteq> set (name r)"
    unfolding strip_def by (auto dest!: set_dropWhileD)
  then have "CHR ''/'' \<notin> set (main_folder_name r)"
    using assms by (auto simp: main_folder_name_def safe_name_def)
  moreover have "main_folder_name r \<noteq> []" "main_folder_name r \<noteq> ''.''"
    by (simp_all add: main_folder_name_def) 
  ultimately show ?thesis unfolding main_dir_def by (rule joinpath_single)
qed

lemma strip_decomp:
  "\<exists>a b. s = a @ strip s @ b \<and> list_all py_isspace a \<and> list_all py_isspace b"
proof -
  define t where "t = dropWhile py_isspace s"
  have s: "s = takeWhile py_isspace s @ t" by (simp add: t_def)
  have "rev (takeWhile py_isspace (rev t) @ dropWhile py_isspace (rev t)) = t"
    by (simp only: takeWhile_dropWhile_id rev_rev_ident)
  then have "rev (dropWhile py_isspace (rev t)) @ rev (takeWhile py_isspace (rev t)) = t"
    by (simp only: rev_append)
  then have t: "t = strip s @ rev (takeWhile py_isspace (rev t))"
    by (simp only: strip_def t_def)
  have "list_all py_isspace (takeWhile py_isspace s)"
    by (simp add: list_all_iff) (meson set_takeWhileD)
  moreover have "list_all py_isspace (rev (takeWhile py_isspace (rev t)))"
    by (simp add: list_all_iff) (meson set_takeWhileD)
  moreover have "s = takeWhile py_isspace s @ strip s @ rev (takeWhile py_isspace (rev t))"
    using s t by simp
  ultimately show ?thesis by blast
qed

lemma strip_ends:
  assumes "strip s \<noteq> []"
  shows "\<not> py_isspace (hd (strip s)) \<and> \<not> py_isspace (last (strip s))"
proof -
  define t where "t = dropWhile py_isspace s"
  define w where "w = dropWhile py_isspace (rev t)"
  have sw: "strip s = rev w" by (simp add: strip_def t_def w_def)
  then have wne: "w \<noteq> []" using assms by simp
  have "\<not> py_isspace (hd w)" using wne unfolding w_def by (rule hd_dropWhile)
  then have l: "\<not> py_isspace (last (strip s))" using wne by (simp add: sw last_rev)
  have tne: "t \<noteq> []" using wne by (auto simp: w_def)
  have "last w = last (rev t)"
    using wne unfolding w_def
    by (metis last_appendR takeWhile_dropWhile_id)
  then have "hd (strip s) = hd t" using wne tne by (simp add: sw hd_rev last_rev)
  moreover have "\<not> py_isspace (hd t)" using tne unfolding t_def by (rule hd_dropWhile)
  ultimately show ?thesis using l by simp
qed

lemma is_digit_not_percent: "is_digit c \<Longrightarrow> c \<noteq> CHR ''%''"
  by (auto simp: is_digit_def)

lemma fmt_02d_no_percent: "CHR ''%'' \<notin> set (fmt_02d i)"
proof -
  have a: "0 \<le> n \<Longrightarrow> CHR ''%'' \<notin> set (dec_int n)" for n
    using dec_int_digits [of n] is_digit_not_percent by (auto simp: list_all_iff)
  show ?thesis by (auto simp: fmt_02d_def zfill_def a)
qed

lemma strip_subset: "set (strip s) \<subseteq> set s"
  unfolding strip_def by (auto dest!: set_dropWhileD)

lemma outtmpl_below:
  assumes "CHR ''/'' \<notin> set (name r)"
  shows "outtmpl base r = season_dir base r @ [build_output_template (safe_name r) (season r)]"
proof -
  let ?t = "build_output_template (safe_name r) (season r)"
  have t: "?t = strip (name r) @ '' S'' @ fmt_02d (season r) @ ''E%(autonumber)02d.%(ext)s''"
    by (simp add: build_output_template_def safe_name_def Let_def)
  have "CHR ''/'' \<notin> set (strip (name r))" using assms strip_subset by blast
  then have "CHR ''/'' \<notin> set ?t" using fmt_02d_no_slash by (simp add: t)
  moreover have "?t \<noteq> []" by (simp add: t)
  moreover have "2 \<le> length ?t" by (simp add: t)
  then have "?t \<noteq> ''.''" by auto
  ultimately show ?thesis unfolding outtmpl_def by (rule joinpath_single)
qed

lemma expand_plain:
  "CHR ''%'' \<notin> set s \<Longrightarrow> expand_template (s @ t) n ext = s @ expand_template t n ext"
proof (induction s)
  case Nil
  then show ?case by simp
next
  case (Cons c s)
  then have c: "c \<noteq> CHR ''%''" by auto
  have "expand_template (c # s @ t) n ext = c # expand_template (s @ t) n ext"
    using c by (subst expand_template.simps) (simp add: startswith_def)
  then show ?case using Cons by simp
qed

lemma expand_placeholders:
  "expand_template ''%(autonumber)02d.%(ext)s'' n ext = fmt_02d n @ ''.'' @ ext"
proof -
  have a: "expand_template [] n ext = []" by (subst expand_template.simps) simp
  have b: "expand_template ''%(ext)s'' n ext = ext"
    by (subst expand_template.simps) (simp add: startswith_def a)
  have c: "expand_template ''.%(ext)s'' n ext = ''.'' @ ext"
    by (subst expand_template.simps) (simp add: startswith_def b)
  show ?thesis by (subst expand_template.simps) (simp add: startswith_def c)
qed

lemma output_filename_pattern:
  assumes "CHR ''%'' \<notin> set (name r)"
  shows "output_filename (build_output_template (safe_name r) (season r)) k ext =
           strip (name r) @ '' S'' @ fmt_02d (season r) @ ''E'' @ fmt_02d (int k + 1) @ ''.'' @ ext"
proof -
  let ?h = "strip (name r) @ '' S'' @ fmt_02d (season r) @ ''E''"
  have t: "build_output_template (safe_name r) (season r) = ?h @ ''%(autonumber)02d.%(ext)s''"
    by (simp add: build_output_template_def safe_name_def Let_def)
  have "CHR ''%'' \<notin> set (strip (name r))" using assms strip_subset by blast
  then have "CHR ''%'' \<notin> set ?h" using fmt_02d_no_percent by simp
  then have "expand_template (?h @ ''%(autonumber)02d.%(ext)s'') (int k + 1) ext =
               ?h @ expand_template ''%(autonumber)02d.%(ext)s'' (int k + 1) ext"
    by (rule expand_plain)
  then show ?thesis by (simp add: output_filename_def t expand_placeholders)
qed

text \<open>
  C8, as the claim states it, fails. Each of these requests is valid. For a name with
  surrounding whitespace the root folder is not the display name followed by the tag:
  the runner strips the name first. For the name \<open>a/b\<close> the root folder is not one
  folder below the base directory: the slash splits it in two. For the name \<open>/abs\<close>
  the template is not inside the season folder, and not below the base directory.
\<close>

theorem output_names_counterexample:
  "valid_request req_padded \<and>
   main_folder_name req_padded = ''Show [imdbid-tt1234567]'' \<and>
   main_folder_name req_padded \<noteq> name req_padded @ '' [imdbid-'' @ imdbid req_padded @ '']'' \<and>
   valid_request req_nested \<and>
   main_dir base_dir req_nested = [''data'', ''a'', ''b [imdbid-tt1234567]''] \<and>
   valid_request req_abs \<and>
   season_dir base_dir req_abs = [''abs [imdbid-tt1234567]'', ''Season 01''] \<and>
   outtmpl base_dir req_abs = [''abs S01E%(autonumber)02d.%(ext)s'']"
  by code_simp

text \<open>
  C8 (as amended). With the display name stripped of leading and trailing whitespace
  (\<open>safe_name\<close>): the root folder is \<open><safe name> [imdbid-<catalog id>]\<close>, the season
  folder is \<open>Season <season>\<close> directly below it, and the output template is
  \<open><safe name> S<season>E%(autonumber)02d.%(ext)s\<close>. When the name and the catalog id
  hold no slash, the root folder is one folder directly below the base directory and
  the template names a file directly inside the season folder. When the name holds no
  percent sign, the downloader's filling of the template gives
  \<open><safe name> S<season>E<number>.<ext>\<close>, the number padded to two digits and starting
  at 1. The season of a valid request is printed in decimal, padded with a zero to two
  digits. A name without surrounding whitespace is used as it is.
\<close>

theorem output_names:
  "main_folder_name r = strip (name r) @ '' [imdbid-'' @ imdbid r @ '']'' \<and>
   season_folder_name r = ''Season '' @ fmt_02d (season r) \<and>
   build_output_template (safe_name r) (season r) =
     strip (name r) @ '' S'' @ fmt_02d (season r) @ ''E%(autonumber)02d.%(ext)s'' \<and>
   season_dir base r = main_dir base r @ [season_folder_name r] \<and>
   (CHR ''/'' \<notin> set (name r) \<and> CHR ''/'' \<notin> set (imdbid r) \<longrightarrow>
      main_dir base r = base @ [main_folder_name r]) \<and>
   (CHR ''/'' \<notin> set (name r) \<longrightarrow>
      outtmpl base r = season_dir base r @ [build_output_template (safe_name r) (season r)]) \<and>
   (CHR ''%'' \<notin> set (name r) \<longrightarrow>
      (\<forall>k ext. output_filename (build_output_template (safe_name r) (season r)) k ext =
         strip (name r) @ '' S'' @ fmt_02d (season r) @ ''E'' @ fmt_02d (int k + 1) @ ''.'' @ ext)) \<and>
   (strip (name r) = name r \<longrightarrow> main_folder_name r = name r @ '' [imdbid-'' @ imdbid r @ '']'') \<and>
   (\<exists>a b. name r = a @ strip (name r) @ b \<and> list_all py_isspace a \<and> list_all py_isspace b) \<and>
   (strip (name r) \<noteq> [] \<longrightarrow>
      \<not> py_isspace (hd (strip (name r))) \<and> \<not> py_isspace (last (strip (name r)))) \<and>
   (valid_request r \<longrightarrow>
      list_all is_digit (fmt_02d (season r)) \<and> digits_value (fmt_02d (season r)) = season r \<and>
      2 \<le> length (fmt_02d (season r)) \<and>
      (season r \<le> 9 \<longrightarrow> fmt_02d (season r) = [CHR ''0'', digit_char (season r)]) \<and>
      (10 \<le> season r \<longrightarrow> fmt_02d (season r) = dec_int (season r)))"
proof -
  have names: "main_folder_name r = strip (name r) @ '' [imdbid-'' @ imdbid r @ '']''"
    "season_folder_name r = ''Season '' @ fmt_02d (season r)"
    "build_output_template (safe_name r) (season r) =
       strip (name r) @ '' S'' @ fmt_02d (season r) @ ''E%(autonumber)02d.%(ext)s''"
    by (simp_all add: main_folder_name_def season_folder_name_def build_output_template_def
        safe_name_def Let_def)
  have season: "list_all is_digit (fmt_02d (season r)) \<and> digits_value (fmt_02d (season r)) = season r \<and>
      2 \<le> length (fmt_02d (season r)) \<and>
      (season r \<le> 9 \<longrightarrow> fmt_02d (season r) = [CHR ''0'', digit_char (season r)]) \<and>
      (10 \<le> season r \<longrightarrow> fmt_02d (season r) = dec_int (season r))"
    if v: "valid_request r"
  proof -
    have s1: "1 \<le> season r" using v by (simp add: valid_request_def validate_season_def)
    show ?thesis
    proof (cases "season r \<le> 9")
      case True
      then have f: "fmt_02d (season r) = [CHR ''0'', digit_char (season r)]"
        using s1 by (intro fmt_02d_one_digit) simp_all
      have "is_digit CHR ''0''" by (simp add: is_digit_def)
      moreover have "is_digit (digit_char (season r))" using s1 True by (intro is_digit_digit_char) simp_all
      moreover have "digits_value [CHR ''0'', digit_char (season r)] = season r"
        using s1 True by (simp add: digits_value_def of_char_digit_char)
      ultimately show ?thesis using f True by simp
    next
      case False
      then have ge: "10 \<le> season r" by simp
      then have f: "fmt_02d (season r) = dec_int (season r)" by (rule fmt_02d_more_digits)
      show ?thesis
        using ge f dec_int_digits [of "season r"] digits_value_dec_int [of "season r"]
          dec_int_length2 [of "season r"] by simp
    qed
  qed
  have tmpl: "CHR ''/'' \<notin> set (name r) \<longrightarrow>
      outtmpl base r = season_dir base r @ [build_output_template (safe_name r) (season r)]"
    using outtmpl_below [of r base] by blast
  have filled: "CHR ''%'' \<notin> set (name r) \<longrightarrow>
      (\<forall>k ext. output_filename (build_output_template (safe_name r) (season r)) k ext =
         strip (name r) @ '' S'' @ fmt_02d (season r) @ ''E'' @ fmt_02d (int k + 1) @ ''.'' @ ext)"
    using output_filename_pattern [of r] by blast
  have root: "CHR ''/'' \<notin> set (name r) \<and> CHR ''/'' \<notin> set (imdbid r) \<longrightarrow>
      main_dir base r = base @ [main_folder_name r]"
    using main_dir_below [of r base] by blast
  have same: "strip (name r) = name r \<longrightarrow> main_folder_name r = name r @ '' [imdbid-'' @ imdbid r @ '']''"
    using names(1) by simp
  have ends: "strip (name r) \<noteq> [] \<longrightarrow>
      \<not> py_isspace (hd (strip (name r))) \<and> \<not> py_isspace (last (strip (name r)))"
    using strip_ends [of "name r"] by blast
  have valid: "valid_request r \<longrightarrow>
      list_all is_digit (fmt_02d (season r)) \<and> digits_value (fmt_02d (season r)) = season r \<and>
      2 \<le> length (fmt_02d (season r)) \<and>
      (season r \<le> 9 \<longrightarrow> fmt_02d (season r) = [CHR ''0'', digit_char (season r)]) \<and>
      (10 \<le> season r \<longrightarrow> fmt_02d (season r) = dec_int (season r))"
    using season by blast
  from names(1) names(2) names(3) season_dir_below [of base r] root tmpl filled same
    strip_decomp [of "name r"] ends valid
  show ?thesis by (intro conjI)
qed

theorem output_names_witness:
  "valid_request req_show \<and> strip (name req_show) = name req_show \<and>
   CHR ''/'' \<notin> set (name req_show) \<and> CHR ''/'' \<notin> set (imdbid req_show) \<and>
   CHR ''%'' \<notin> set (name req_show) \<and>
   main_folder_name req_show = ''Show [imdbid-tt1234567]'' \<and>
   season_folder_name req_show = ''Season 01'' \<and>
   build_output_template (safe_name req_show) (season req_show) = ''Show S01E%(autonumber)02d.%(ext)s'' \<and>
   main_dir [''data''] req_show = [''data'', ''Show [imdbid-tt1234567]''] \<and>
   season_dir [''data''] req_show = [''data'', ''Show [imdbid-tt1234567]'', ''Season 01''] \<and>
   outtmpl [''data''] req_show =
     [''data'', ''Show [imdbid-tt1234567]'', ''Season 01'', ''Show S01E%(autonumber)02d.%(ext)s''] \<and>
   output_filename (build_output_template (safe_name req_show) (season req_show)) 0 ''mp4'' =
     ''Show S01E01.mp4''"
proof -
  note T = output_names [of req_show "[''data'']"]
  have v: "valid_request req_show" by code_simp
  have s: "strip (name req_show) = name req_show" by code_simp
  have n1: "CHR ''/'' \<notin> set (name req_show)" by (simp add: req_show_def)
  have n2: "CHR ''/'' \<notin> set (imdbid req_show)" by (simp add: req_show_def)
  have pc: "CHR ''%'' \<notin> set (name req_show)" by (simp add: req_show_def)
  have c1: "main_folder_name req_show = ''Show [imdbid-tt1234567]''" by code_simp
  have c2: "season_folder_name req_show = ''Season 01''" by code_simp
  have c3: "build_output_template (safe_name req_show) (season req_show) = ''Show S01E%(autonumber)02d.%(ext)s''"
    by code_simp
  have c4: "season_dir [''data''] req_show = [''data'', ''Show [imdbid-tt1234567]'', ''Season 01'']"
    by code_simp
  have c5: "strip (name req_show) @ '' S'' @ fmt_02d (season req_show) @ ''E'' @ fmt_02d (int 0 + 1) @ ''.'' @ ''mp4''
              = ''Show S01E01.mp4''"
    by code_simp
  have md: "main_dir [''data''] req_show = [''data''] @ [main_folder_name req_show]"
    using T [THEN conjunct2, THEN conjunct2, THEN conjunct2, THEN conjunct2, THEN conjunct1]
      conjI [OF n1 n2] by (rule mp)
  have ot: "outtmpl [''data''] req_show =
              season_dir [''data''] req_show @ [build_output_template (safe_name req_show) (season req_show)]"
    using T [THEN conjunct2, THEN conjunct2, THEN conjunct2, THEN conjunct2, THEN conjunct2, THEN conjunct1]
      n1 by (rule mp)
  have "\<forall>k ext. output_filename (build_output_template (safe_name req_show) (season req_show)) k ext =
         strip (name req_show) @ '' S'' @ fmt_02d (season req_show) @ ''E'' @ fmt_02d (int k + 1) @ ''.'' @ ext"
    using T [THEN conjunct2, THEN conjunct2, THEN conjunct2, THEN conjunct2, THEN conjunct2,
             THEN conjunct2, THEN conjunct1] pc by (rule mp)
  then have fn: "output_filename (build_output_template (safe_name req_show) (season req_show)) 0 ''mp4'' =
         strip (name req_show) @ '' S'' @ fmt_02d (season req_show) @ ''E'' @ fmt_02d (int 0 + 1) @ ''.'' @ ''mp4''"
    by blast
  have md': "main_dir [''data''] req_show = [''data'', ''Show [imdbid-tt1234567]'']"
    by (simp only: md c1 append.simps)
  have ot': "outtmpl [''data''] req_show =
     [''data'', ''Show [imdbid-tt1234567]'', ''Season 01'', ''Show S01E%(autonumber)02d.%(ext)s'']"
    by (simp only: ot c3 c4 append.simps)
  have fn': "output_filename (build_output_template (safe_name req_show) (season req_show)) 0 ''mp4'' =
     ''Show S01E01.mp4''"
    by (simp only: fn c5)
  from v s n1 n2 pc c1 c2 c3 md' c4 ot' fn' show ?thesis by (intro conjI)
qed

section \<open>The episode count\<close>

lemma node_at_is_file: "p \<noteq> [] \<Longrightarrow> is_file fs p \<Longrightarrow> p \<in> fst ` set fs"
  by (auto simp: is_file_def node_at_def dest!: map_of_SomeD intro: rev_image_eqI)

lemma count_media_files_card:
  assumes "is_dir fs folder"
  shows "count_media_files fs folder sfx =
           card {p. p \<noteq> [] \<and> parent p = folder \<and> is_file fs p \<and> lower (path_suffix p) = lower sfx}"
proof -
  let ?P = "\<lambda>p. is_file fs p \<and> lower (path_suffix p) = lower sfx"
  have d: "distinct (filter ?P (iterdir fs folder))" by (simp add: iterdir_def)
  have "set (filter ?P (iterdir fs folder)) =
          {p. p \<noteq> [] \<and> parent p = folder \<and> is_file fs p \<and> lower (path_suffix p) = lower sfx}"
    using node_at_is_file [of _ fs] by (auto simp: iterdir_def)
  then have "card {p. p \<noteq> [] \<and> parent p = folder \<and> is_file fs p \<and> lower (path_suffix p) = lower sfx}
             = length (filter ?P (iterdir fs folder))"
    using distinct_card [OF d] by simp
  then show ?thesis using assms by (simp add: count_media_files_def)
qed

lemma count_media_files_ext:
  assumes "\<forall>p. node_at fs p = node_at fs' p"
  shows "count_media_files fs folder sfx = count_media_files fs' folder sfx"
proof (cases "is_dir fs folder")
  case True
  then have "is_dir fs' folder" using assms by (simp add: is_dir_def)
  moreover have "is_file fs p = is_file fs' p" for p using assms by (simp add: is_file_def)
  ultimately show ?thesis using True by (simp add: count_media_files_card)
next
  case False
  then have "\<not> is_dir fs' folder" using assms by (simp add: is_dir_def)
  then show ?thesis using False by (simp add: count_media_files_def)
qed

text \<open>
  C9. \<open>count_media_files\<close> is 0 for a folder that is not a directory, and otherwise the
  number of regular files directly inside it whose suffix is, case apart, the one asked
  for. It depends on nothing but what the file system holds, and the hook stores that
  count whatever the record held before: a second event on the same directory contents
  stores the same \<open>current_episode\<close>.
\<close>

theorem current_episode_rederived:
  "(\<not> is_dir fs folder \<longrightarrow> count_media_files fs folder sfx = 0) \<and>
   (is_dir fs folder \<longrightarrow>
      count_media_files fs folder sfx =
        card {p. p \<noteq> [] \<and> parent p = folder \<and> is_file fs p \<and> lower (path_suffix p) = lower sfx}) \<and>
   ((\<forall>p. node_at fs p = node_at fs' p) \<longrightarrow>
      count_media_files fs folder sfx = count_media_files fs' folder sfx) \<and>
   ((ev_status d = Some ''downloading'' \<or> ev_status d = Some ''finished'') \<and>
    (ev_status d' = Some ''downloading'' \<or> ev_status d' = Some ''finished'') \<and>
    map_of jobs j = Some m \<and> hook j folder fs d jobs = Inr jobs1 \<and> hook j folder fs d' jobs1 = Inr jobs2 \<longrightarrow>
      (\<exists>m1 m2. map_of jobs1 j = Some m1 \<and> map_of jobs2 j = Some m2 \<and>
         current_episode m1 = Some (count_media_files fs folder ''.mp4'') \<and>
         current_episode m2 = current_episode m1))"
proof (intro conjI impI)
  assume "\<not> is_dir fs folder"
  then show "count_media_files fs folder sfx = 0" by (simp add: count_media_files_def)
next
  assume "is_dir fs folder"
  then show "count_media_files fs folder sfx =
        card {p. p \<noteq> [] \<and> parent p = folder \<and> is_file fs p \<and> lower (path_suffix p) = lower sfx}"
    by (rule count_media_files_card)
next
  assume "\<forall>p. node_at fs p = node_at fs' p"
  then show "count_media_files fs folder sfx = count_media_files fs' folder sfx"
    by (rule count_media_files_ext)
next
  assume h: "(ev_status d = Some ''downloading'' \<or> ev_status d = Some ''finished'') \<and>
    (ev_status d' = Some ''downloading'' \<or> ev_status d' = Some ''finished'') \<and>
    map_of jobs j = Some m \<and> hook j folder fs d jobs = Inr jobs1 \<and> hook j folder fs d' jobs1 = Inr jobs2"
  then obtain m1 where m1: "map_of jobs1 j = Some m1"
      "current_episode m1 = Some (count_media_files fs folder ''.mp4'')"
    using hook_stores [of d jobs j m folder fs jobs1] by auto
  with h obtain m2 where m2: "map_of jobs2 j = Some m2"
      "current_episode m2 = Some (count_media_files fs folder ''.mp4'')"
    using hook_stores [of d' jobs1 j m1 folder fs jobs2] by auto
  from m1 m2 show "\<exists>m1 m2. map_of jobs1 j = Some m1 \<and> map_of jobs2 j = Some m2 \<and>
         current_episode m1 = Some (count_media_files fs folder ''.mp4'') \<and>
         current_episode m2 = current_episode m1" by simp
qed

theorem current_episode_rederived_witness:
  "is_dir fs_two_episodes season_path \<and>
   count_media_files fs_two_episodes season_path ''.mp4'' = 2 \<and>
   card {p. p \<noteq> [] \<and> parent p = season_path \<and> is_file fs_two_episodes p \<and>
            lower (path_suffix p) = lower ''.mp4''} = 2 \<and>
   \<not> is_dir fs_two_episodes [''data'', ''Other''] \<and>
   count_media_files fs_two_episodes [''data'', ''Other''] ''.mp4'' = 0"
proof -
  have a: "is_dir fs_two_episodes season_path" by code_simp
  have b: "count_media_files fs_two_episodes season_path ''.mp4'' = 2" by code_simp
  have c: "\<not> is_dir fs_two_episodes [''data'', ''Other'']" by code_simp
  from current_episode_rederived [of fs_two_episodes season_path "''.mp4''"]
       current_episode_rederived [of fs_two_episodes "[''data'', ''Other'']" "''.mp4''"]
       a b c show ?thesis by simp
qed

section \<open>Creating directories\<close>

lemma parent_snoc: "parent (p @ [x]) = p"
  by (simp add: parent_def)

lemma node_at_Cons:
  "node_at ((p, n) # fs) q = (if q = [] then Some Dir else if q = p then Some n else node_at fs q)"
  by (simp add: node_at_def)

lemma node_at_Cons_other: "q \<noteq> p \<Longrightarrow> node_at ((p, n) # fs) q = node_at fs q"
  by (simp add: node_at_def)


lemma mkdir_exists_ok:
  "is_dir fs p \<Longrightarrow> mkdir parents True p fs = Inr fs"
  by (subst mkdir.simps) (simp add: os_mkdir_def is_FileNotFoundError_def is_dir_def)

lemma node_at_exists_iff: "node_at fs q \<noteq> None \<longleftrightarrow> q = [] \<or> q \<in> fst ` set fs"
  using map_of_eq_None_iff [of fs q] by (auto simp: node_at_def)

lemma well_formed_parent:
  assumes "well_formed fs" and "node_at fs q \<noteq> None"
  shows "is_dir fs (parent q)"
proof (cases "q = []")
  case True
  then show ?thesis by (simp add: parent_def is_dir_def node_at_def)
next
  case False
  then have "q \<in> fst ` set fs" using assms(2) node_at_exists_iff [of fs q] by blast
  then show ?thesis using assms(1) by (auto simp: well_formed_def list_all_iff)
qed

lemma well_formed_prefix_dirs:
  "well_formed fs \<Longrightarrow> is_dir fs q \<Longrightarrow> is_dir fs (take k q)"
proof (induction q arbitrary: k rule: rev_induct)
  case Nil
  then show ?case by simp
next
  case (snoc x p)
  show ?case
  proof (cases "k \<le> length p")
    case True
    have "node_at fs (p @ [x]) \<noteq> None" using snoc.prems(2) by (simp add: is_dir_def)
    then have "is_dir fs p" using well_formed_parent [OF snoc.prems(1)] parent_snoc by metis
    then have "is_dir fs (take k p)" using snoc.IH snoc.prems(1) by blast
    then show ?thesis using True by simp
  next
    case False
    then show ?thesis using snoc.prems(2) by simp
  qed
qed

lemma ancestors_take: "q \<in> set (ancestors p) \<Longrightarrow> \<exists>k. k < length p \<and> q = take k p \<and> q = take k (parent p)"
  by (auto simp: ancestors_def parent_def take_butlast)

lemma parent_in_ancestors: "p \<noteq> [] \<Longrightarrow> parent p \<in> set (ancestors p)"
proof -
  assume "p \<noteq> []"
  then have "length p - 1 < length p" by simp
  moreover have "parent p = take (length p - 1) p" by (simp add: parent_def butlast_conv_take)
  ultimately show ?thesis unfolding ancestors_def by (metis atLeast0LessThan imageI lessThan_iff set_map set_upt)
qed

lemma os_mkdir_creates:
  assumes "well_formed fs" and "node_at fs p = None" and "is_dir fs (parent p)"
  shows "os_mkdir p fs = Inr ((p, Dir) # fs)"
proof -
  have "\<forall>q\<in>set (ancestors p). is_dir fs q"
    using well_formed_prefix_dirs [OF assms(1,3)] by (auto dest!: ancestors_take)
  then have "filter (\<lambda>q. \<not> is_dir fs q) (ancestors p) = []" by (simp add: filter_empty_conv)
  then show ?thesis using assms(2) by (simp add: os_mkdir_def)
qed

lemma os_mkdir_missing:
  assumes "node_at fs p = None" and "\<not> is_dir fs (parent p)"
    and "\<forall>q\<in>set (ancestors p). node_at fs q \<noteq> None \<longrightarrow> is_dir fs q"
  shows "os_mkdir p fs = Inl (FileNotFoundError p)"
proof -
  have "p \<noteq> []" using assms(1) by (auto simp: node_at_def)
  then have "parent p \<in> set (ancestors p)" by (rule parent_in_ancestors)
  then have "filter (\<lambda>q. \<not> is_dir fs q) (ancestors p) \<noteq> []"
    using assms(2) by (auto simp: filter_empty_conv)
  then obtain q qs where f: "filter (\<lambda>q. \<not> is_dir fs q) (ancestors p) = q # qs"
    by (cases "filter (\<lambda>q. \<not> is_dir fs q) (ancestors p)") auto
  then have "q \<in> set (filter (\<lambda>q. \<not> is_dir fs q) (ancestors p))" by simp
  then have "q \<in> set (ancestors p)" "\<not> is_dir fs q" by auto
  then have "node_at fs q = None" using assms(3) by blast
  then show ?thesis using assms(1) f by (simp add: os_mkdir_def)
qed

lemma well_formed_Cons:
  assumes "well_formed fs" and "node_at fs p = None" and "is_dir fs (parent p)"
  shows "well_formed ((p, Dir) # fs)"
proof -
  have pne: "p \<noteq> []" using assms(2) by (auto simp: node_at_def)
  then have pp: "parent p \<noteq> p" by (cases p rule: rev_cases) (auto simp: parent_def)
  have keep: "is_dir ((p, Dir) # fs) q" if "is_dir fs q" for q
  proof -
    have "q \<noteq> p" using that assms(2) by (auto simp: is_dir_def)
    then show ?thesis using that by (simp add: is_dir_def node_at_Cons_other)
  qed
  have "is_dir ((p, Dir) # fs) (parent p)" using assms(3) by (rule keep)
  moreover have "\<forall>q\<in>set (map fst fs). is_dir ((p, Dir) # fs) (parent q)"
    using assms(1) keep by (auto simp: well_formed_def list_all_iff)
  ultimately show ?thesis by (simp add: well_formed_def list_all_iff)
qed

lemma mkdir_creates:
  "well_formed fs \<Longrightarrow> node_at fs p = None \<Longrightarrow> is_dir fs (parent p) \<Longrightarrow>
   mkdir parents exist_ok p fs = Inr ((p, Dir) # fs)"
  by (subst mkdir.simps) (simp add: os_mkdir_creates)

lemma mkdir_parents:
  assumes "well_formed fs"
    and "\<forall>n\<le>length p. node_at fs (take n p) \<noteq> None \<longrightarrow> is_dir fs (take n p)"
  shows "\<exists>fs'. mkdir True True p fs = Inr fs' \<and> is_dir fs' p \<and> well_formed fs' \<and>
           (is_dir fs p \<longrightarrow> fs' = fs) \<and>
           (\<forall>q. node_at fs q \<noteq> None \<longrightarrow> node_at fs' q = node_at fs q) \<and>
           (\<forall>q. node_at fs' q \<noteq> None \<longrightarrow> node_at fs q \<noteq> None \<or> (\<exists>n. q = take n p))"
  using assms
proof (induction p arbitrary: fs rule: rev_induct)
  case Nil
  have d: "is_dir fs []" by (simp add: is_dir_def node_at_def)
  then have "mkdir True True [] fs = Inr fs" by (rule mkdir_exists_ok)
  with d Nil.prems(1) show ?case by simp
next
  case (snoc x p)
  let ?p = "p @ [x]"
  have pne: "?p \<noteq> []" by simp
  consider "node_at fs ?p \<noteq> None" | "node_at fs ?p = None" "node_at fs p \<noteq> None"
    | "node_at fs ?p = None" "node_at fs p = None" by blast
  then show ?case
  proof cases
    case 1
    have "take (length ?p) ?p = ?p" by simp
    then have d: "is_dir fs ?p" using snoc.prems(2) 1 by (metis order_refl)
    then have "mkdir True True ?p fs = Inr fs" by (rule mkdir_exists_ok)
    with d snoc.prems(1) show ?thesis by simp
  next
    case 2
    have "take (length p) ?p = p" by simp
    moreover have "length p \<le> length ?p" by simp
    ultimately have d: "is_dir fs p" using snoc.prems(2) 2(2) by metis
    then have m: "mkdir True True ?p fs = Inr ((?p, Dir) # fs)"
      using snoc.prems(1) 2(1) by (intro mkdir_creates) (simp_all add: parent_snoc)
    have a: "is_dir ((?p, Dir) # fs) ?p" by (simp add: is_dir_def node_at_Cons)
    have w: "well_formed ((?p, Dir) # fs)"
      using snoc.prems(1) 2(1) d by (intro well_formed_Cons) (simp_all add: parent_snoc)
    have n: "\<not> is_dir fs ?p" using 2(1) by (simp add: is_dir_def)
    have b: "\<forall>q. node_at fs q \<noteq> None \<longrightarrow> node_at ((?p, Dir) # fs) q = node_at fs q"
      using 2(1) by (metis node_at_Cons_other)
    have c: "\<forall>q. node_at ((?p, Dir) # fs) q \<noteq> None \<longrightarrow> node_at fs q \<noteq> None \<or> (\<exists>n. q = take n ?p)"
    proof (intro allI impI)
      fix q assume "node_at ((?p, Dir) # fs) q \<noteq> None"
      then have "q = ?p \<or> node_at fs q \<noteq> None" by (auto simp: node_at_Cons node_at_def split: if_splits)
      moreover have "?p = take (length ?p) ?p" by simp
      ultimately show "node_at fs q \<noteq> None \<or> (\<exists>n. q = take n ?p)" by metis
    qed
    from m a w n b c show ?thesis by blast
  next
    case 3
    have pre: "\<forall>n\<le>length p. node_at fs (take n p) \<noteq> None \<longrightarrow> is_dir fs (take n p)"
    proof (intro allI impI)
      fix n assume n: "n \<le> length p" and e: "node_at fs (take n p) \<noteq> None"
      have "take n ?p = take n p" using n by simp
      moreover have "n \<le> length ?p" using n by simp
      ultimately show "is_dir fs (take n p)" using snoc.prems(2) e by metis
    qed
    from snoc.IH [OF snoc.prems(1) pre] obtain fs1 where
      fs1: "mkdir True True p fs = Inr fs1" "is_dir fs1 p" "well_formed fs1"
        "\<forall>q. node_at fs q \<noteq> None \<longrightarrow> node_at fs1 q = node_at fs q"
        "\<forall>q. node_at fs1 q \<noteq> None \<longrightarrow> node_at fs q \<noteq> None \<or> (\<exists>n. q = take n p)"
      by blast
    have notp: "\<And>n. ?p \<noteq> take n p"
    proof
      fix n assume "?p = take n p"
      then have "length ?p = length (take n p)" by simp
      then show False by simp
    qed
    have none1: "node_at fs1 ?p = None"
    proof (rule ccontr)
      assume "node_at fs1 ?p \<noteq> None"
      then have "node_at fs ?p \<noteq> None \<or> (\<exists>n. ?p = take n p)" using fs1(5) by blast
      with 3(1) notp show False by blast
    qed
    have m2: "mkdir False True ?p fs1 = Inr ((?p, Dir) # fs1)"
      using fs1(3) none1 fs1(2) by (intro mkdir_creates) (simp_all add: parent_snoc)
    have anc: "\<forall>q\<in>set (ancestors ?p). node_at fs q \<noteq> None \<longrightarrow> is_dir fs q"
    proof (intro ballI impI)
      fix q assume "q \<in> set (ancestors ?p)" and e: "node_at fs q \<noteq> None"
      then obtain k where "k < length ?p" "q = take k ?p" using ancestors_take by blast
      then show "is_dir fs q" using snoc.prems(2) e by (metis less_imp_le_nat)
    qed
    have os: "os_mkdir ?p fs = Inl (FileNotFoundError ?p)"
      using 3(1) _ anc by (rule os_mkdir_missing) (simp add: parent_snoc is_dir_def 3(2))
    have pp: "parent ?p \<noteq> ?p" by (simp add: parent_snoc)
    have m: "mkdir True True ?p fs = Inr ((?p, Dir) # fs1)"
      by (subst mkdir.simps) (simp add: os is_FileNotFoundError_def pp parent_snoc fs1(1) m2)
    have a: "is_dir ((?p, Dir) # fs1) ?p" by (simp add: is_dir_def node_at_Cons)
    have w: "well_formed ((?p, Dir) # fs1)"
      using fs1(3) none1 fs1(2) by (intro well_formed_Cons) (simp_all add: parent_snoc)
    have n: "\<not> is_dir fs ?p" using 3(1) by (simp add: is_dir_def)
    have b: "\<forall>q. node_at fs q \<noteq> None \<longrightarrow> node_at ((?p, Dir) # fs1) q = node_at fs q"
      using 3(1) fs1(4) by (metis node_at_Cons_other)
    have c: "\<forall>q. node_at ((?p, Dir) # fs1) q \<noteq> None \<longrightarrow> node_at fs q \<noteq> None \<or> (\<exists>n. q = take n ?p)"
    proof (intro allI impI)
      fix q assume "node_at ((?p, Dir) # fs1) q \<noteq> None"
      then have "q = ?p \<or> node_at fs1 q \<noteq> None" by (auto simp: node_at_Cons node_at_def split: if_splits)
      then consider "q = ?p" | "node_at fs q \<noteq> None" | n where "q = take n p" using fs1(5) by blast
      then show "node_at fs q \<noteq> None \<or> (\<exists>n. q = take n ?p)"
      proof cases
        case 1
        have "?p = take (length ?p) ?p" by simp
        with 1 show ?thesis by metis
      next
        case 2 then show ?thesis by simp
      next
        case 3
        have "take (min n (length p)) ?p = take n p" by (simp add: min_def)
        with 3 show ?thesis by metis
      qed
    qed
    from m a w n b c show ?thesis by blast
  qed
qed

section \<open>The runner, step by step\<close>

lemma same_outcome_refl: "same_outcome m m"
  by (simp add: same_outcome_def)

lemma same_outcome_trans: "same_outcome a b \<Longrightarrow> same_outcome b c \<Longrightarrow> same_outcome a c"
  by (simp add: same_outcome_def)

lemma keys_update_present: "map_of jobs j = Some m \<Longrightarrow> map fst (AList.update j v jobs) = map fst jobs"
  by (simp add: update_keys) (metis domI dom_map_of_conv_image_fst)

lemma hook_job:
  assumes "map_of jobs j = Some m" and "hook j sdir fs d jobs = Inr jobs'"
  shows "\<exists>m'. map_of jobs' j = Some m' \<and> same_outcome m m'"
  using assms
  by (auto simp: hook_def Let_def map_of_update_same same_outcome_def split: sum.splits if_splits)

lemma hook_others:
  assumes "hook j sdir fs d jobs = Inr jobs'" and "k \<noteq> j"
  shows "map_of jobs' k = map_of jobs k"
  using assms
  by (auto simp: hook_def Let_def map_of_update_other split: sum.splits if_splits option.splits)

lemma hook_keys:
  assumes "hook j sdir fs d jobs = Inr jobs'"
  shows "map fst jobs' = map fst jobs"
  using assms
  by (auto simp: hook_def Let_def keys_update_present split: sum.splits if_splits option.splits)

lemma run_hooks_job:
  "map_of jobs j = Some m \<Longrightarrow> \<exists>m'. map_of (run_hooks j sdir evs jobs) j = Some m' \<and> same_outcome m m'"
proof (induction evs arbitrary: jobs m)
  case Nil
  then show ?case by (simp add: same_outcome_refl)
next
  case (Cons ev evs)
  obtain fs d where ev: "ev = (fs, d)" by (cases ev)
  show ?case
  proof (cases "hook j sdir fs d jobs")
    case (Inl e)
    then show ?thesis using Cons by (simp add: ev)
  next
    case (Inr jobs')
    then obtain m1 where m1: "map_of jobs' j = Some m1" "same_outcome m m1"
      using hook_job Cons.prems by blast
    from Cons.IH [OF m1(1)] obtain m' where
      "map_of (run_hooks j sdir evs jobs') j = Some m'" "same_outcome m1 m'" by blast
    then show ?thesis using Inr m1(2) by (auto simp: ev intro: same_outcome_trans)
  qed
qed

lemma run_hooks_others:
  "k \<noteq> j \<Longrightarrow> map_of (run_hooks j sdir evs jobs) k = map_of jobs k"
proof (induction evs arbitrary: jobs)
  case Nil then show ?case by simp
next
  case (Cons ev evs)
  obtain fs d where ev: "ev = (fs, d)" by (cases ev)
  show ?case using Cons hook_others [of j sdir fs d jobs _ k]
    by (auto simp: ev split: sum.splits)
qed

lemma run_hooks_keys: "map fst (run_hooks j sdir evs jobs) = map fst jobs"
proof (induction evs arbitrary: jobs)
  case Nil then show ?case by simp
next
  case (Cons ev evs)
  obtain fs d where ev: "ev = (fs, d)" by (cases ev)
  show ?case using Cons hook_keys [of j sdir fs d jobs]
    by (auto simp: ev split: sum.splits)
qed

lemma update_job_Some:
  "map_of jobs j = Some m \<Longrightarrow> update_job j f jobs = Inr (AList.update j (f m) jobs)"
  by (simp add: update_job_def)


lemma try_block_spec:
  assumes j1: "map_of jobs1 j = Some m1"
  shows "\<exists>r jobs2 fs2 m2.
     try_block base ydl t1 j request (jobs1, fs) = (r, jobs2, fs2) \<and>
     map_of jobs2 j = Some m2 \<and> (\<forall>k. k \<noteq> j \<longrightarrow> map_of jobs2 k = map_of jobs1 k) \<and>
     map fst jobs2 = map fst jobs1 \<and>
     (case r of
        Inl e \<Rightarrow> same_outcome m1 m2
      | Inr u \<Rightarrow> status m2 = Finished \<and> finished_at m2 = Some t1 \<and>
                 result_path m2 = Some (season_dir base request) \<and> error m2 = error m1) \<and>
     r = (case mkdir True True (main_dir base request) fs of
            Inl e \<Rightarrow> Inl e
          | Inr fs1 \<Rightarrow>
              (case mkdir False False (season_dir base request) fs1 of
                 Inl e \<Rightarrow> Inl e
               | Inr fs2 \<Rightarrow>
                   (case dl_raises (ydl (outtmpl base request) (url request) fs2) of
                      Some e \<Rightarrow> Inl e
                    | None \<Rightarrow> Inr ()))) \<and>
     fs2 = (case mkdir True True (main_dir base request) fs of
              Inl e \<Rightarrow> fs
            | Inr fs1 \<Rightarrow>
                (case mkdir False False (season_dir base request) fs1 of
                   Inl e \<Rightarrow> fs1
                 | Inr fs2 \<Rightarrow> dl_final_fs (ydl (outtmpl base request) (url request) fs2)))"
proof (cases "mkdir True True (main_dir base request) fs")
  case (Inl e)
  then show ?thesis using j1 by (simp add: try_block_def same_outcome_refl)
next
  case a: (Inr fs1)
  show ?thesis
  proof (cases "mkdir False False (season_dir base request) fs1")
    case (Inl e)
    then show ?thesis using j1 a by (simp add: try_block_def same_outcome_refl)
  next
    case b: (Inr fs2)
    define run where "run = ydl (outtmpl base request) (url request) fs2"
    define jobsh where "jobsh = run_hooks j (season_dir base request) (dl_events run) jobs1"
    obtain mh where mh: "map_of jobsh j = Some mh" "same_outcome m1 mh"
      using run_hooks_job [OF j1] unfolding jobsh_def by blast
    have oth: "\<forall>k. k \<noteq> j \<longrightarrow> map_of jobsh k = map_of jobs1 k"
      by (simp add: jobsh_def run_hooks_others)
    have keys: "map fst jobsh = map fst jobs1" by (simp add: jobsh_def run_hooks_keys)
    show ?thesis
    proof (cases "dl_raises run")
      case (Some e)
      then show ?thesis using a b mh oth keys
        by (simp add: try_block_def Let_def run_def [symmetric] jobsh_def [symmetric])
    next
      case None
      have fin: "run_finished j t1 (season_dir base request) jobsh =
                   Inr (AList.update j (mh\<lparr>status := Finished, finished_at := Some t1,
                          result_path := Some (season_dir base request),
                          message := Some ''Download completed successfully'',
                          progress_percent := Some 100, current_title := Some [], speed := Some []\<rparr>) jobsh)"
        using mh(1) by (simp add: run_finished_def update_job_Some)
      show ?thesis using a b None mh oth keys fin
        by (simp add: try_block_def Let_def run_def [symmetric] jobsh_def [symmetric]
            map_of_update_same map_of_update_other keys_update_present same_outcome_def)
    qed
  qed
qed

lemma run_download_spec:
  assumes j0: "map_of jobs j = Some m"
  shows "\<exists>jobs' fs' m'.
     run_download base (Inr ydl) t0 t1 j request (jobs, fs) = (None, jobs', fs') \<and>
     map_of jobs' j = Some m' \<and> (\<forall>k. k \<noteq> j \<longrightarrow> map_of jobs' k = map_of jobs k) \<and>
     map fst jobs' = map fst jobs \<and> finished_at m' = Some t1 \<and>
     (case mkdir True True (main_dir base request) fs of
        Inl e \<Rightarrow> status m' = Failed \<and> error m' = Some (handler_text e) \<and> result_path m' = result_path m \<and> fs' = fs
      | Inr fs1 \<Rightarrow>
          (case mkdir False False (season_dir base request) fs1 of
             Inl e \<Rightarrow> status m' = Failed \<and> error m' = Some (handler_text e) \<and> result_path m' = result_path m \<and> fs' = fs1
           | Inr fs2 \<Rightarrow>
               fs' = dl_final_fs (ydl (outtmpl base request) (url request) fs2) \<and>
               (case dl_raises (ydl (outtmpl base request) (url request) fs2) of
                  Some e \<Rightarrow> status m' = Failed \<and> error m' = Some (handler_text e) \<and> result_path m' = result_path m
                | None \<Rightarrow> status m' = Finished \<and> result_path m' = Some (season_dir base request) \<and>
                          error m' = error m)))"
proof -
  define m1 where "m1 = m\<lparr>status := Running, started_at := Some t0, progress_percent := Some 0,
                          current_title := Some [], speed := Some []\<rparr>"
  define jobs1 where "jobs1 = AList.update j m1 jobs"
  have st: "run_start j t0 jobs = Inr jobs1"
    using j0 by (simp add: run_start_def update_job_Some jobs1_def m1_def)
  have j1: "map_of jobs1 j = Some m1" by (simp add: jobs1_def map_of_update_same)
  have oth1: "\<forall>k. k \<noteq> j \<longrightarrow> map_of jobs1 k = map_of jobs k"
    by (simp add: jobs1_def map_of_update_other)
  have keys1: "map fst jobs1 = map fst jobs" using j0 by (simp add: jobs1_def keys_update_present)
  from try_block_spec [OF j1, of base ydl t1 request fs] obtain r jobs2 fs2 m2 where
    tb: "try_block base ydl t1 j request (jobs1, fs) = (r, jobs2, fs2)"
    and j2: "map_of jobs2 j = Some m2"
    and oth2: "\<forall>k. k \<noteq> j \<longrightarrow> map_of jobs2 k = map_of jobs1 k"
    and keys2: "map fst jobs2 = map fst jobs1"
    and out: "case r of Inl e \<Rightarrow> same_outcome m1 m2
                | Inr u \<Rightarrow> status m2 = Finished \<and> finished_at m2 = Some t1 \<and>
                   result_path m2 = Some (season_dir base request) \<and> error m2 = error m1"
    and r: "r = (case mkdir True True (main_dir base request) fs of
            Inl e \<Rightarrow> Inl e
          | Inr fs1 \<Rightarrow>
              (case mkdir False False (season_dir base request) fs1 of
                 Inl e \<Rightarrow> Inl e
               | Inr fs2 \<Rightarrow>
                   (case dl_raises (ydl (outtmpl base request) (url request) fs2) of
                      Some e \<Rightarrow> Inl e
                    | None \<Rightarrow> Inr ())))"
    and fs2: "fs2 = (case mkdir True True (main_dir base request) fs of
              Inl e \<Rightarrow> fs
            | Inr fs1 \<Rightarrow>
                (case mkdir False False (season_dir base request) fs1 of
                   Inl e \<Rightarrow> fs1
                 | Inr fs2 \<Rightarrow> dl_final_fs (ydl (outtmpl base request) (url request) fs2)))"
    by blast
  show ?thesis
  proof (cases r)
    case (Inr u)
    have rd: "run_download base (Inr ydl) t0 t1 j request (jobs, fs) = (None, jobs2, fs2)"
      using st tb Inr by (simp add: run_download_def)
    have "status m2 = Finished" "finished_at m2 = Some t1"
      "result_path m2 = Some (season_dir base request)" "error m2 = error m"
      using out Inr by (simp_all add: m1_def)
    then show ?thesis using rd j2 oth1 oth2 keys1 keys2 r fs2 Inr
      by (auto split: sum.splits option.splits)
  next
    case (Inl e)
    define m3 where "m3 = m2\<lparr>status := Failed, finished_at := Some t1, error := Some (handler_text e)\<rparr>"
    have rf: "run_failed j t1 (handler_text e) jobs2 = Inr (AList.update j m3 jobs2)"
      using j2 by (simp add: run_failed_def update_job_Some m3_def)
    have rd: "run_download base (Inr ydl) t0 t1 j request (jobs, fs) = (None, AList.update j m3 jobs2, fs2)"
      using st tb Inl rf by (simp add: run_download_def)
    have so: "same_outcome m1 m2" using out Inl by simp
    have "result_path m3 = result_path m" using so by (simp add: m3_def same_outcome_def m1_def)
    moreover have "status m3 = Failed" "finished_at m3 = Some t1" "error m3 = Some (handler_text e)"
      by (simp_all add: m3_def)
    moreover have "map_of (AList.update j m3 jobs2) j = Some m3" by (simp add: map_of_update_same)
    moreover have "\<forall>k. k \<noteq> j \<longrightarrow> map_of (AList.update j m3 jobs2) k = map_of jobs k"
      using oth1 oth2 by (simp add: map_of_update_other)
    moreover have "map fst (AList.update j m3 jobs2) = map fst jobs"
      using j2 keys1 keys2 by (simp add: keys_update_present)
    ultimately show ?thesis using rd r fs2 Inl
      by (auto split: sum.splits option.splits)
  qed
qed

section \<open>The runner's outcomes\<close>








text \<open>
  C10. The runner makes the root folder with \<open>mkdir(parents=True, exist_ok=True)\<close> and
  the season folder with \<open>mkdir(parents=False, exist_ok=False)\<close>. Take a well-formed
  file system in which whatever exists on the way to the root folder is a directory
  (the root folder itself may be there or not) and the season folder is absent. Then
  the first call succeeds: it makes the root folder and its missing parents, changes
  nothing that was there, and leaves the file system as it is when the root folder is
  already a directory. The second call adds the season folder, and exactly the file
  system with these directories is handed to the downloader. The runner returns with
  the job \<open>finished\<close> and the season folder as \<open>result_path\<close> when the download returns,
  and \<open>failed\<close> with the handler's text when the download raises.
\<close>

theorem root_dir_exist_ok:
  "map_of jobs j = Some m \<and> well_formed fs \<and>
   (\<forall>n\<le>length (main_dir base request).
       node_at fs (take n (main_dir base request)) \<noteq> None \<longrightarrow>
       is_dir fs (take n (main_dir base request))) \<and>
   node_at fs (season_dir base request) = None \<longrightarrow>
     (\<exists>fs1 jobs' m'.
        mkdir True True (main_dir base request) fs = Inr fs1 \<and>
        is_dir fs1 (main_dir base request) \<and>
        (is_dir fs (main_dir base request) \<longrightarrow> fs1 = fs) \<and>
        (\<forall>q. node_at fs q \<noteq> None \<longrightarrow> node_at fs1 q = node_at fs q) \<and>
        (\<forall>q. node_at fs1 q \<noteq> None \<longrightarrow>
              node_at fs q \<noteq> None \<or> (\<exists>n. q = take n (main_dir base request))) \<and>
        mkdir False False (season_dir base request) fs1 = Inr ((season_dir base request, Dir) # fs1) \<and>
        run_download base (Inr ydl) t0 t1 j request (jobs, fs) =
          (None, jobs',
           dl_final_fs (ydl (outtmpl base request) (url request) ((season_dir base request, Dir) # fs1))) \<and>
        map_of jobs' j = Some m' \<and>
        (dl_raises (ydl (outtmpl base request) (url request) ((season_dir base request, Dir) # fs1)) = None \<longrightarrow>
           status m' = Finished \<and> result_path m' = Some (season_dir base request) \<and> error m' = error m) \<and>
        (\<forall>e. dl_raises (ydl (outtmpl base request) (url request) ((season_dir base request, Dir) # fs1)) = Some e \<longrightarrow>
           status m' = Failed \<and> error m' = Some (handler_text e)))"
proof
  let ?main = "main_dir base request"
  let ?season = "season_dir base request"
  assume h: "map_of jobs j = Some m \<and> well_formed fs \<and>
   (\<forall>n\<le>length ?main. node_at fs (take n ?main) \<noteq> None \<longrightarrow> is_dir fs (take n ?main)) \<and>
   node_at fs ?season = None"
  then have j0: "map_of jobs j = Some m" and wf: "well_formed fs"
    and pre: "\<forall>n\<le>length ?main. node_at fs (take n ?main) \<noteq> None \<longrightarrow> is_dir fs (take n ?main)"
    and absent: "node_at fs ?season = None" by blast+
  from mkdir_parents [OF wf pre] obtain fs1 where
    a: "mkdir True True ?main fs = Inr fs1" and d1: "is_dir fs1 ?main" and wf1: "well_formed fs1"
    and same: "is_dir fs ?main \<longrightarrow> fs1 = fs"
    and kept: "\<forall>q. node_at fs q \<noteq> None \<longrightarrow> node_at fs1 q = node_at fs q"
    and added: "\<forall>q. node_at fs1 q \<noteq> None \<longrightarrow> node_at fs q \<noteq> None \<or> (\<exists>n. q = take n ?main)"
    by blast
  have below: "?season = ?main @ [season_folder_name request]" by (rule season_dir_below)
  have notmain: "?season \<noteq> take n ?main" for n
  proof
    assume "?season = take n ?main"
    then have "length ?season = length (take n ?main)" by simp
    then show False by (simp add: below)
  qed
  have absent1: "node_at fs1 ?season = None"
  proof (rule ccontr)
    assume "node_at fs1 ?season \<noteq> None"
    then have "node_at fs ?season \<noteq> None \<or> (\<exists>n. ?season = take n ?main)" using added by blast
    with absent notmain show False by blast
  qed
  have par: "parent ?season = ?main" by (simp add: below parent_snoc)
  have b: "mkdir False False ?season fs1 = Inr ((?season, Dir) # fs1)"
    using wf1 absent1 d1 by (intro mkdir_creates) (simp_all add: par)
  let ?run = "ydl (outtmpl base request) (url request) ((?season, Dir) # fs1)"
  from run_download_spec [OF j0, of base ydl t0 t1 request fs] obtain jobs' fs' m' where
    rd: "run_download base (Inr ydl) t0 t1 j request (jobs, fs) = (None, jobs', fs')"
    and j': "map_of jobs' j = Some m'"
    and out: "fs' = dl_final_fs ?run \<and>
               (case dl_raises ?run of
                  Some e \<Rightarrow> status m' = Failed \<and> error m' = Some (handler_text e) \<and> result_path m' = result_path m
                | None \<Rightarrow> status m' = Finished \<and> result_path m' = Some ?season \<and> error m' = error m)"
    by (auto simp: a b)
  have rd': "run_download base (Inr ydl) t0 t1 j request (jobs, fs) = (None, jobs', dl_final_fs ?run)"
    using rd out by simp
  have ok: "dl_raises ?run = None \<longrightarrow>
           status m' = Finished \<and> result_path m' = Some ?season \<and> error m' = error m"
    using out by auto
  have bad: "\<forall>e. dl_raises ?run = Some e \<longrightarrow> status m' = Failed \<and> error m' = Some (handler_text e)"
    using out by auto
  from a d1 same kept added b rd' j' ok bad
  show "\<exists>fs1 jobs' m'.
        mkdir True True ?main fs = Inr fs1 \<and>
        is_dir fs1 ?main \<and>
        (is_dir fs ?main \<longrightarrow> fs1 = fs) \<and>
        (\<forall>q. node_at fs q \<noteq> None \<longrightarrow> node_at fs1 q = node_at fs q) \<and>
        (\<forall>q. node_at fs1 q \<noteq> None \<longrightarrow> node_at fs q \<noteq> None \<or> (\<exists>n. q = take n ?main)) \<and>
        mkdir False False ?season fs1 = Inr ((?season, Dir) # fs1) \<and>
        run_download base (Inr ydl) t0 t1 j request (jobs, fs) =
          (None, jobs', dl_final_fs (ydl (outtmpl base request) (url request) ((?season, Dir) # fs1))) \<and>
        map_of jobs' j = Some m' \<and>
        (dl_raises (ydl (outtmpl base request) (url request) ((?season, Dir) # fs1)) = None \<longrightarrow>
           status m' = Finished \<and> result_path m' = Some ?season \<and> error m' = error m) \<and>
        (\<forall>e. dl_raises (ydl (outtmpl base request) (url request) ((?season, Dir) # fs1)) = Some e \<longrightarrow>
           status m' = Failed \<and> error m' = Some (handler_text e))"
    by (intro exI conjI)
qed

theorem root_dir_exist_ok_witness:
  "map_of jobs_pending ''job-1'' = Some (new_job ''2024-01-01T00:00:00'' req_show) \<and>
   well_formed fs_root_only \<and>
   is_dir fs_root_only (main_dir base_dir req_show) \<and>
   node_at fs_root_only (season_dir base_dir req_show) = None \<and>
   mkdir True True (main_dir base_dir req_show) fs_root_only = Inr fs_root_only \<and>
   mkdir False False (season_dir base_dir req_show) fs_root_only =
     Inr ((season_dir base_dir req_show, Dir) # fs_root_only) \<and>
   (\<exists>jobs' m'. run_download base_dir (Inr ydl_one_episode) ''2024-01-01T00:00:01'' ''2024-01-01T00:00:02''
                   ''job-1'' req_show (jobs_pending, fs_root_only) =
                 (None, jobs',
                  dl_final_fs (ydl_one_episode (outtmpl base_dir req_show) (url req_show)
                                 ((season_dir base_dir req_show, Dir) # fs_root_only))) \<and>
       map_of jobs' ''job-1'' = Some m' \<and> status m' = Finished \<and>
       result_path m' = Some (season_dir base_dir req_show))"
proof -
  let ?main = "main_dir base_dir req_show"
  let ?season = "season_dir base_dir req_show"
  have a: "map_of jobs_pending ''job-1'' = Some (new_job ''2024-01-01T00:00:00'' req_show)"
    by (simp add: jobs_pending_def)
  have w: "well_formed fs_root_only" by code_simp
  have b: "is_dir fs_root_only ?main" by code_simp
  have c: "node_at fs_root_only ?season = None" by code_simp
  have p: "\<forall>n\<le>length ?main. node_at fs_root_only (take n ?main) \<noteq> None \<longrightarrow>
             is_dir fs_root_only (take n ?main)"
    using well_formed_prefix_dirs [OF w b] by blast
  have d: "dl_raises (ydl_one_episode (outtmpl base_dir req_show) (url req_show) fs') = None" for fs'
    by (simp add: ydl_one_episode_def)
  from root_dir_exist_ok [of jobs_pending "''job-1''" "new_job ''2024-01-01T00:00:00'' req_show"
      fs_root_only base_dir req_show ydl_one_episode "''2024-01-01T00:00:01''" "''2024-01-01T00:00:02''",
      THEN mp, OF conjI [OF a conjI [OF w conjI [OF p c]]]]
  obtain fs1 jobs' m' where
    r: "mkdir True True ?main fs_root_only = Inr fs1"
       "is_dir fs1 ?main"
       "is_dir fs_root_only ?main \<longrightarrow> fs1 = fs_root_only"
       "\<forall>q. node_at fs_root_only q \<noteq> None \<longrightarrow> node_at fs1 q = node_at fs_root_only q"
       "\<forall>q. node_at fs1 q \<noteq> None \<longrightarrow> node_at fs_root_only q \<noteq> None \<or> (\<exists>n. q = take n ?main)"
       "mkdir False False ?season fs1 = Inr ((?season, Dir) # fs1)"
       "run_download base_dir (Inr ydl_one_episode) ''2024-01-01T00:00:01'' ''2024-01-01T00:00:02''
          ''job-1'' req_show (jobs_pending, fs_root_only) =
        (None, jobs', dl_final_fs (ydl_one_episode (outtmpl base_dir req_show) (url req_show) ((?season, Dir) # fs1)))"
       "map_of jobs' ''job-1'' = Some m'"
       "dl_raises (ydl_one_episode (outtmpl base_dir req_show) (url req_show) ((?season, Dir) # fs1)) = None \<longrightarrow>
           status m' = Finished \<and> result_path m' = Some ?season \<and>
           error m' = error (new_job ''2024-01-01T00:00:00'' req_show)"
       "\<forall>e. dl_raises (ydl_one_episode (outtmpl base_dir req_show) (url req_show) ((?season, Dir) # fs1)) = Some e \<longrightarrow>
           status m' = Failed \<and> error m' = Some (handler_text e)"
    by (elim exE conjE) (rule that)
  have e: "fs1 = fs_root_only" using r(3) b by blast
  have f: "status m' = Finished \<and> result_path m' = Some ?season"
    using r(9) d [of "(?season, Dir) # fs1"] by simp
  from a w b c r(1) r(6) r(7) r(8) f show ?thesis unfolding e by blast
qed

section \<open>The invariant of the running system\<close>

lemma status_of_update:
  "status_of (AList.update j v jobs) k = (if k = j then Some (status v) else status_of jobs k)"
  by (simp add: status_of_def update_conv')

lemma active_count_update:
  "map_of jobs j = Some m \<Longrightarrow>
   active_count (AList.update j m' jobs) + (if active m then 1 else 0)
     = active_count jobs + (if active m' then 1 else 0)"
  by (induction jobs) (auto simp: active_count_def)

lemma active_count_insert:
  "j \<notin> fst ` set jobs \<Longrightarrow>
   active_count (AList.update j m' jobs) = active_count jobs + (if active m' then 1 else 0)"
  by (induction jobs) (auto simp: active_count_def)

lemma active_count_none: "\<not> list_ex active (map snd jobs) \<Longrightarrow> active_count jobs = 0"
  by (auto simp: active_count_def list_ex_iff filter_empty_conv)

lemma active_count_some: "list_ex active (map snd jobs) \<Longrightarrow> 0 < active_count jobs"
  by (auto simp: active_count_def list_ex_iff filter_empty_conv)

lemma inv_init: "system_inv (init_system fs)"
  by (simp add: system_inv_def init_system_def active_count_def)

lemma inv_job_update:
  assumes inv: "system_inv s" and j: "map_of (sys_jobs s) j = Some m"
    and ok: "record_ok m'" and act: "active m' \<Longrightarrow> active m"
    and rs: "\<forall>k. map_of rs' k = (if k = j then Some r' else map_of (sys_runners s) k)"
    and r': "case r' of Queued request \<Rightarrow> status m' = Pending | InTry request \<Rightarrow> status m' = Running
               | Returned \<Rightarrow> status m' = Pending \<or> status m' = Finished \<or> status m' = Failed"
  shows "system_inv (s\<lparr>sys_jobs := AList.update j m' (sys_jobs s), sys_runners := rs'\<rparr>)"
proof -
  have d: "distinct (map fst (AList.update j m' (sys_jobs s)))"
    using inv by (simp add: system_inv_def distinct_update)
  have "active_count (AList.update j m' (sys_jobs s)) \<le> active_count (sys_jobs s)"
    using active_count_update [OF j, of m'] act by (auto split: if_splits)
  then have c: "active_count (AList.update j m' (sys_jobs s)) \<le> 1"
    using inv by (simp add: system_inv_def)
  have r: "\<forall>k r. map_of rs' k = Some r \<longrightarrow> runner_ok (AList.update j m' (sys_jobs s)) k r"
  proof (intro allI impI)
    fix k r assume kr: "map_of rs' k = Some r"
    show "runner_ok (AList.update j m' (sys_jobs s)) k r"
    proof (cases "k = j")
      case True
      then have "r = r'" using kr rs by simp
      then show ?thesis using r' True by (simp add: runner_ok_def status_of_update split: runner.splits)
    next
      case False
      then have "map_of (sys_runners s) k = Some r" using kr rs by simp
      then have "runner_ok (sys_jobs s) k r" using inv by (simp add: system_inv_def)
      then show ?thesis using False by (simp add: runner_ok_def status_of_update split: runner.splits)
    qed
  qed
  have o: "\<forall>k v. map_of (AList.update j m' (sys_jobs s)) k = Some v \<longrightarrow> record_ok v"
    using inv ok by (auto simp: system_inv_def update_conv')
  from d c r o show ?thesis by (simp add: system_inv_def)
qed

lemma inv_runner_status:
  assumes "system_inv s" and "map_of (sys_runners s) j = Some r"
  shows "\<exists>m. map_of (sys_jobs s) j = Some m \<and> record_ok m \<and>
           (case r of Queued request \<Rightarrow> status m = Pending | InTry request \<Rightarrow> status m = Running
             | Returned \<Rightarrow> status m = Pending \<or> status m = Finished \<or> status m = Failed)"
proof -
  have "runner_ok (sys_jobs s) j r" using assms by (simp add: system_inv_def)
  then obtain m where "map_of (sys_jobs s) j = Some m"
    by (cases r) (auto simp: runner_ok_def status_of_def)
  moreover from this have "record_ok m" using assms(1) by (simp add: system_inv_def)
  ultimately show ?thesis using \<open>runner_ok (sys_jobs s) j r\<close>
    by (auto simp: runner_ok_def status_of_def split: runner.splits)
qed

lemma runners_update: "\<forall>k. map_of (AList.update j r rs) k = (if k = j then Some r else map_of rs k)"
  by (simp add: update_conv')

lemma hook_result:
  assumes "hook j sdir fs d jobs = Inr jobs'"
  shows "jobs' = jobs \<or>
         (\<exists>m p t sp n. map_of jobs j = Some m \<and>
            jobs' = AList.update j (m\<lparr>progress_percent := p, current_title := t, speed := sp,
                                      current_episode := n\<rparr>) jobs)"
  using assms
  by (auto simp: hook_def Let_def split: if_splits sum.splits option.splits)

lemma pull_conflict_unchanged: "pull request new_id now jobs = (Inl err, jobs') \<Longrightarrow> jobs' = jobs"
  by (auto simp: pull_def split: if_splits)

lemma pull_created_result:
  "pull request new_id now jobs = (Inr resp, jobs') \<Longrightarrow>
   \<not> list_ex active (map snd jobs) \<and> jobs' = AList.update new_id (new_job now request) jobs"
  by (auto simp: pull_def split: if_splits)

lemma inv_step:
  assumes inv: "system_inv s" and st: "step base s s'"
  shows "system_inv s'"
  using st
proof cases
  case (step_pull_conflict request new_id now err jobs')
  then have "s' = s" using pull_conflict_unchanged by fastforce
  with inv show ?thesis by simp
next
  case (step_pull_created new_id request now resp jobs')
  from pull_created_result [OF step_pull_created(3)]
  have na: "\<not> list_ex active (map snd (sys_jobs s))"
    and jobs': "jobs' = AList.update new_id (new_job now request) (sys_jobs s)" by simp_all
  have fresh: "map_of (sys_jobs s) new_id = None"
    using step_pull_created(2) by (simp add: map_of_eq_None_iff)
  have d: "distinct (map fst jobs')" using inv by (simp add: jobs' system_inv_def distinct_update)
  have c: "active_count jobs' \<le> 1"
    using active_count_insert [OF step_pull_created(2)] active_count_none [OF na] by (simp add: jobs')
  have r: "\<forall>k r. map_of (AList.update new_id (Queued request) (sys_runners s)) k = Some r
             \<longrightarrow> runner_ok jobs' k r"
  proof (intro allI impI)
    fix k r assume kr: "map_of (AList.update new_id (Queued request) (sys_runners s)) k = Some r"
    show "runner_ok jobs' k r"
    proof (cases "k = new_id")
      case True
      then have "r = Queued request" using kr by (simp add: update_conv')
      then show ?thesis using True
        by (simp add: runner_ok_def jobs' status_of_update new_job_def)
    next
      case False
      then have "map_of (sys_runners s) k = Some r" using kr by (simp add: update_conv')
      then have "runner_ok (sys_jobs s) k r" using inv by (simp add: system_inv_def)
      then show ?thesis using False by (simp add: runner_ok_def jobs' status_of_update split: runner.splits)
    qed
  qed
  have o: "\<forall>k v. map_of jobs' k = Some v \<longrightarrow> record_ok v"
    using inv by (auto simp: system_inv_def jobs' update_conv' record_ok_def new_job_def)
  from d c r o show ?thesis by (simp add: system_inv_def step_pull_created(1))
next
  case (step_run_start j request now jobs')
  from inv_runner_status [OF inv step_run_start(2)] obtain m where
    m: "map_of (sys_jobs s) j = Some m" "record_ok m" "status m = Pending" by auto
  define m' where "m' = m\<lparr>status := Running, started_at := Some now, progress_percent := Some 0,
                          current_title := Some [], speed := Some []\<rparr>"
  have jobs': "jobs' = AList.update j m' (sys_jobs s)"
    using step_run_start(3) m(1) by (simp add: run_start_def update_job_Some m'_def)
  have "system_inv (s\<lparr>sys_jobs := AList.update j m' (sys_jobs s),
                      sys_runners := AList.update j (InTry request) (sys_runners s)\<rparr>)"
    using inv m(1)
  proof (rule inv_job_update)
    show "record_ok m'" using m(2,3) by (simp add: record_ok_def m'_def)
    show "active m" using m(3) by (simp add: active_def)
    show "\<forall>k. map_of (AList.update j (InTry request) (sys_runners s)) k
            = (if k = j then Some (InTry request) else map_of (sys_runners s) k)"
      by (rule runners_update)
    show "case InTry request of Queued request \<Rightarrow> status m' = Pending | InTry request \<Rightarrow> status m' = Running
               | Returned \<Rightarrow> status m' = Pending \<or> status m' = Finished \<or> status m' = Failed"
      by (simp add: m'_def)
  qed
  then show ?thesis by (simp add: step_run_start(1) jobs')
next
  case (step_import_raises j request)
  from inv_runner_status [OF inv step_import_raises(2)] obtain m where
    m: "map_of (sys_jobs s) j = Some m" "status m = Pending" by auto
  have r: "runner_ok (sys_jobs s) k r"
    if kr: "map_of (AList.update j Returned (sys_runners s)) k = Some r" for k r
  proof (cases "k = j")
    case True
    then have "r = Returned" using kr by (simp add: update_conv')
    then show ?thesis using True m by (simp add: runner_ok_def status_of_def)
  next
    case False
    then have "map_of (sys_runners s) k = Some r" using kr by (simp add: update_conv')
    then show ?thesis using inv unfolding system_inv_def by blast
  qed
  have "distinct (map fst (sys_jobs s))" "active_count (sys_jobs s) \<le> 1"
    "\<forall>k v. map_of (sys_jobs s) k = Some v \<longrightarrow> record_ok v"
    using inv unfolding system_inv_def by blast+
  with r show ?thesis unfolding system_inv_def step_import_raises(1) by simp
next
  case (step_run_start_raises j request now e)
  from inv_runner_status [OF inv step_run_start_raises(2)] obtain m where
    "map_of (sys_jobs s) j = Some m" by auto
  then have "run_start j now (sys_jobs s) \<noteq> Inl e" by (simp add: run_start_def update_job_Some)
  with step_run_start_raises(3) show ?thesis by simp
next
  case (step_fs fs')
  with inv show ?thesis by (simp add: system_inv_def)
next
  case (step_hook j request d jobs')
  from inv_runner_status [OF inv step_hook(2)] obtain m where
    m: "map_of (sys_jobs s) j = Some m" "record_ok m" "status m = Running" by auto
  from hook_result [OF step_hook(3)] show ?thesis
  proof
    assume "jobs' = sys_jobs s"
    then have "s' = s" using step_hook(1) by simp
    with inv show ?thesis by simp
  next
    assume "\<exists>m p t sp n. map_of (sys_jobs s) j = Some m \<and>
            jobs' = AList.update j (m\<lparr>progress_percent := p, current_title := t, speed := sp,
                                      current_episode := n\<rparr>) (sys_jobs s)"
    then obtain p t sp n where
      jobs': "jobs' = AList.update j (m\<lparr>progress_percent := p, current_title := t, speed := sp,
                                      current_episode := n\<rparr>) (sys_jobs s)" using m(1) by auto
    define m' where "m' = m\<lparr>progress_percent := p, current_title := t, speed := sp, current_episode := n\<rparr>"
    have "system_inv (s\<lparr>sys_jobs := AList.update j m' (sys_jobs s), sys_runners := sys_runners s\<rparr>)"
      using inv m(1)
    proof (rule inv_job_update)
      show "record_ok m'" using m(2) by (simp add: record_ok_def m'_def)
      show "active m" using m(3) by (simp add: active_def)
      show "\<forall>k. map_of (sys_runners s) k = (if k = j then Some (InTry request) else map_of (sys_runners s) k)"
        using step_hook(2) by simp
      show "case InTry request of Queued request \<Rightarrow> status m' = Pending | InTry request \<Rightarrow> status m' = Running
               | Returned \<Rightarrow> status m' = Pending \<or> status m' = Finished \<or> status m' = Failed"
        using m(3) by (simp add: m'_def)
    qed
    then show ?thesis by (simp add: step_hook(1) jobs' m'_def)
  qed
next
  case (step_run_finished j request now jobs')
  from inv_runner_status [OF inv step_run_finished(2)] obtain m where
    m: "map_of (sys_jobs s) j = Some m" "record_ok m" "status m = Running" by auto
  define m' where "m' = m\<lparr>status := Finished, finished_at := Some now,
       result_path := Some (season_dir base request), message := Some ''Download completed successfully'',
       progress_percent := Some 100, current_title := Some [], speed := Some []\<rparr>"
  have jobs': "jobs' = AList.update j m' (sys_jobs s)"
    using step_run_finished(3) m(1) by (simp add: run_finished_def update_job_Some m'_def)
  have "system_inv (s\<lparr>sys_jobs := AList.update j m' (sys_jobs s),
                      sys_runners := AList.update j Returned (sys_runners s)\<rparr>)"
    using inv m(1)
  proof (rule inv_job_update)
    show "record_ok m'" using m(2,3) by (simp add: record_ok_def m'_def)
    show "active m" using m(3) by (simp add: active_def)
    show "\<forall>k. map_of (AList.update j Returned (sys_runners s)) k
            = (if k = j then Some Returned else map_of (sys_runners s) k)"
      by (rule runners_update)
    show "case Returned of Queued request \<Rightarrow> status m' = Pending | InTry request \<Rightarrow> status m' = Running
               | Returned \<Rightarrow> status m' = Pending \<or> status m' = Finished \<or> status m' = Failed"
      by (simp add: m'_def)
  qed
  then show ?thesis by (simp add: step_run_finished(1) jobs')
next
  case (step_run_failed j request now e jobs')
  from inv_runner_status [OF inv step_run_failed(2)] obtain m where
    m: "map_of (sys_jobs s) j = Some m" "record_ok m" "status m = Running" by auto
  define m' where "m' = m\<lparr>status := Failed, finished_at := Some now, error := Some (handler_text e)\<rparr>"
  have jobs': "jobs' = AList.update j m' (sys_jobs s)"
    using step_run_failed(3) m(1) by (simp add: run_failed_def update_job_Some m'_def)
  have "system_inv (s\<lparr>sys_jobs := AList.update j m' (sys_jobs s),
                      sys_runners := AList.update j Returned (sys_runners s)\<rparr>)"
    using inv m(1)
  proof (rule inv_job_update)
    show "record_ok m'" using m(2,3) by (simp add: record_ok_def m'_def)
    show "active m" using m(3) by (simp add: active_def)
    show "\<forall>k. map_of (AList.update j Returned (sys_runners s)) k
            = (if k = j then Some Returned else map_of (sys_runners s) k)"
      by (rule runners_update)
    show "case Returned of Queued request \<Rightarrow> status m' = Pending | InTry request \<Rightarrow> status m' = Running
               | Returned \<Rightarrow> status m' = Pending \<or> status m' = Finished \<or> status m' = Failed"
      by (simp add: m'_def)
  qed
  then show ?thesis by (simp add: step_run_failed(1) jobs')
next
  case (step_run_escapes j request now e e')
  from inv_runner_status [OF inv step_run_escapes(2)] obtain m where
    "map_of (sys_jobs s) j = Some m" by auto
  then have "run_failed j now (handler_text e) (sys_jobs s) \<noteq> Inl e'"
    by (simp add: run_failed_def update_job_Some)
  with step_run_escapes(3) show ?thesis by simp
qed

lemma reachable_inv: "reachable base s \<Longrightarrow> system_inv s"
  by (induction rule: reachable.induct) (auto intro: inv_init inv_step)

section \<open>Claims about the running system\<close>

lemma status_move_rank:
  "status_move a b \<Longrightarrow> status_rank a \<le> status_rank b \<and> ((a = Finished \<or> a = Failed) \<longrightarrow> b = a)"
  by (auto simp: status_move_def status_rank_def)

lemma step_status_move:
  assumes inv: "system_inv s" and st: "step base s s'" and j: "map_of (sys_jobs s) j = Some m"
  shows "\<exists>m'. map_of (sys_jobs s') j = Some m' \<and> status_move (status m) (status m')"
  using st
proof cases
  case (step_pull_conflict request new_id now err jobs')
  then have "jobs' = sys_jobs s" using pull_conflict_unchanged by fastforce
  then show ?thesis using j step_pull_conflict(1) by (simp add: status_move_def)
next
  case (step_pull_created new_id request now resp jobs')
  have "j \<noteq> new_id" using step_pull_created(2) j by (auto dest!: map_of_SomeD intro: rev_image_eqI)
  moreover have "jobs' = AList.update new_id (new_job now request) (sys_jobs s)"
    using pull_created_result [OF step_pull_created(3)] by simp
  ultimately show ?thesis using j step_pull_created(1) by (simp add: update_conv' status_move_def)
next
  case (step_run_start j0 request now jobs')
  from inv_runner_status [OF inv step_run_start(2)] obtain m0 where
    m0: "map_of (sys_jobs s) j0 = Some m0" "status m0 = Pending" by auto
  have jobs': "jobs' = AList.update j0 (m0\<lparr>status := Running, started_at := Some now,
                 progress_percent := Some 0, current_title := Some [], speed := Some []\<rparr>) (sys_jobs s)"
    using step_run_start(3) m0(1) by (simp add: run_start_def update_job_Some)
  show ?thesis using j m0 by (cases "j = j0") (simp_all add: step_run_start(1) jobs' update_conv' status_move_def)
next
  case (step_import_raises j0 request)
  then show ?thesis using j by (simp add: status_move_def)
next
  case (step_run_start_raises j0 request now e)
  then show ?thesis using j by (simp add: status_move_def)
next
  case (step_fs fs')
  then show ?thesis using j by (simp add: status_move_def)
next
  case (step_hook j0 request d jobs')
  show ?thesis
  proof (cases "j = j0")
    case True
    then obtain m' where "map_of jobs' j = Some m'" "same_outcome m m'"
      using hook_job [OF _ step_hook(3)] j by blast
    then show ?thesis by (simp add: step_hook(1) same_outcome_def status_move_def)
  next
    case False
    then have "map_of jobs' j = map_of (sys_jobs s) j" using hook_others [OF step_hook(3)] by simp
    then show ?thesis using j by (simp add: step_hook(1) status_move_def)
  qed
next
  case (step_run_finished j0 request now jobs')
  from inv_runner_status [OF inv step_run_finished(2)] obtain m0 where
    m0: "map_of (sys_jobs s) j0 = Some m0" "status m0 = Running" by auto
  have jobs': "\<exists>m1. jobs' = AList.update j0 m1 (sys_jobs s) \<and> status m1 = Finished"
    using step_run_finished(3) m0(1) by (fastforce simp: run_finished_def update_job_Some)
  then obtain m1 where "jobs' = AList.update j0 m1 (sys_jobs s)" "status m1 = Finished" by blast
  then show ?thesis using j m0
    by (cases "j = j0") (simp_all add: step_run_finished(1) update_conv' status_move_def)
next
  case (step_run_failed j0 request now e jobs')
  from inv_runner_status [OF inv step_run_failed(2)] obtain m0 where
    m0: "map_of (sys_jobs s) j0 = Some m0" "status m0 = Running" by auto
  have jobs': "\<exists>m1. jobs' = AList.update j0 m1 (sys_jobs s) \<and> status m1 = Failed"
    using step_run_failed(3) m0(1) by (fastforce simp: run_failed_def update_job_Some)
  then obtain m1 where "jobs' = AList.update j0 m1 (sys_jobs s)" "status m1 = Failed" by blast
  then show ?thesis using j m0
    by (cases "j = j0") (simp_all add: step_run_failed(1) update_conv' status_move_def)
next
  case (step_run_escapes j0 request now e e')
  then show ?thesis using j by (simp add: status_move_def)
qed

lemma reachable_steps: "(step base)\<^sup>*\<^sup>* s s' \<Longrightarrow> reachable base s \<Longrightarrow> reachable base s'"
  by (induction rule: rtranclp_induct) (auto intro: reachable_step)

lemma steps_status:
  assumes "(step base)\<^sup>*\<^sup>* s s'" and "reachable base s" and "map_of (sys_jobs s) j = Some m"
  shows "\<exists>m'. map_of (sys_jobs s') j = Some m' \<and> status_rank (status m) \<le> status_rank (status m') \<and>
           ((status m = Finished \<or> status m = Failed) \<longrightarrow> status m' = status m)"
  using assms
proof (induction rule: rtranclp_induct)
  case base
  then show ?case by simp
next
  case (step y z)
  then obtain my where my: "map_of (sys_jobs y) j = Some my"
      "status_rank (status m) \<le> status_rank (status my)"
      "(status m = Finished \<or> status m = Failed) \<longrightarrow> status my = status m" by blast
  have "system_inv y" using reachable_steps [OF step(1) step(4)] by (rule reachable_inv)
  from step_status_move [OF this step(2) my(1)] obtain mz where
    mz: "map_of (sys_jobs z) j = Some mz" "status_move (status my) (status mz)" by blast
  from status_move_rank [OF mz(2)] my mz(1) show ?case by auto
qed

lemma reach_pending: "reachable base_dir sys_pending"
proof -
  let ?s0 = "init_system fs_root_only"
  have p: "pull req_show ''job-1'' ''2024-01-01T00:00:00'' (sys_jobs ?s0) =
             (Inr \<lparr>resp_job_id = ''job-1'', resp_status = ''pending'', resp_message = ''Download started.''\<rparr>,
              jobs_pending)"
    by (simp add: pull_def init_system_def jobs_pending_def)
  have f: "''job-1'' \<notin> fst ` set (sys_jobs ?s0)" by (simp add: init_system_def)
  have "step base_dir ?s0 (?s0\<lparr>sys_jobs := jobs_pending,
           sys_runners := AList.update ''job-1'' (Queued req_show) (sys_runners ?s0)\<rparr>)"
    using f p by (rule step_pull_created)
  moreover have "?s0\<lparr>sys_jobs := jobs_pending,
           sys_runners := AList.update ''job-1'' (Queued req_show) (sys_runners ?s0)\<rparr> = sys_pending"
    by (simp add: init_system_def sys_pending_def)
  ultimately have "step base_dir ?s0 sys_pending" by simp
  then show ?thesis using reachable_init reachable_step by blast
qed

lemma step_pending_running: "step base_dir sys_pending sys_running"
proof -
  have r: "map_of (sys_runners sys_pending) ''job-1'' = Some (Queued req_show)"
    by (simp add: sys_pending_def)
  have s: "run_start ''job-1'' ''2024-01-01T00:00:01'' (sys_jobs sys_pending) = Inr [(''job-1'', job_running)]"
    by (simp add: run_start_def update_job_def sys_pending_def jobs_pending_def job_running_def)
  have "step base_dir sys_pending (sys_pending\<lparr>sys_jobs := [(''job-1'', job_running)],
           sys_runners := AList.update ''job-1'' (InTry req_show) (sys_runners sys_pending)\<rparr>)"
    using r s by (rule step_run_start)
  moreover have "sys_pending\<lparr>sys_jobs := [(''job-1'', job_running)],
           sys_runners := AList.update ''job-1'' (InTry req_show) (sys_runners sys_pending)\<rparr> = sys_running"
    by (simp add: sys_pending_def sys_running_def)
  ultimately show ?thesis by simp
qed

lemma step_running_failed: "step base_dir sys_running sys_failed"
proof -
  have r: "map_of (sys_runners sys_running) ''job-1'' = Some (InTry req_show)"
    by (simp add: sys_running_def)
  have s: "run_failed ''job-1'' ''2024-01-01T00:00:02'' (handler_text (DownloaderError ''network unreachable''))
             (sys_jobs sys_running) = Inr [(''job-1'', job_failed)]"
    by (simp add: run_failed_def update_job_def sys_running_def job_failed_def handler_text_def
        is_FileExistsError_def)
  have "step base_dir sys_running (sys_running\<lparr>sys_jobs := [(''job-1'', job_failed)],
           sys_runners := AList.update ''job-1'' Returned (sys_runners sys_running)\<rparr>)"
    using r s by (rule step_run_failed)
  moreover have "sys_running\<lparr>sys_jobs := [(''job-1'', job_failed)],
           sys_runners := AList.update ''job-1'' Returned (sys_runners sys_running)\<rparr> = sys_failed"
    by (simp add: sys_running_def sys_failed_def)
  ultimately show ?thesis by simp
qed

lemma reach_running: "reachable base_dir sys_running"
  using reach_pending step_pending_running by (rule reachable_step)

lemma reach_failed: "reachable base_dir sys_failed"
  using reach_running step_running_failed by (rule reachable_step)

text \<open>
  C1. \<open>pull\<close> on a registry with a \<open>pending\<close> or \<open>running\<close> record answers 409 and leaves
  the registry as it was; otherwise it inserts a \<open>pending\<close> record under the new
  identifier, check and insertion being one locked block, one step of the system. In
  every state the system can reach, whatever the interleaving of requests, runners and
  hooks, at most one record is \<open>pending\<close> or \<open>running\<close>, and while there is one every
  further \<open>pull\<close> is answered 409.
\<close>

theorem single_active_job:
  "(list_ex active (map snd jobs) \<longrightarrow>
      pull request new_id now jobs =
        (Inl (HTTPException 409 ''Another download is already in progress. Please wait or cancel it.''), jobs)) \<and>
   (\<not> list_ex active (map snd jobs) \<longrightarrow>
      pull request new_id now jobs =
        (Inr \<lparr>resp_job_id = new_id, resp_status = ''pending'', resp_message = ''Download started.''\<rparr>,
         AList.update new_id (new_job now request) jobs) \<and>
      map_of (AList.update new_id (new_job now request) jobs) new_id = Some (new_job now request) \<and>
      status (new_job now request) = Pending) \<and>
   (reachable base s \<longrightarrow> active_count (sys_jobs s) \<le> 1) \<and>
   (reachable base s \<and> active_count (sys_jobs s) = 1 \<longrightarrow>
      pull request new_id now (sys_jobs s) =
        (Inl (HTTPException 409 ''Another download is already in progress. Please wait or cancel it.''),
         sys_jobs s))"
proof (intro conjI impI)
  assume "list_ex active (map snd jobs)"
  then show "pull request new_id now jobs =
        (Inl (HTTPException 409 ''Another download is already in progress. Please wait or cancel it.''), jobs)"
    by (simp add: pull_def)
next
  assume "\<not> list_ex active (map snd jobs)"
  then show "pull request new_id now jobs =
        (Inr \<lparr>resp_job_id = new_id, resp_status = ''pending'', resp_message = ''Download started.''\<rparr>,
         AList.update new_id (new_job now request) jobs)"
    by (simp add: pull_def)
next
  show "map_of (AList.update new_id (new_job now request) jobs) new_id = Some (new_job now request)"
    by (rule map_of_update_same)
  show "status (new_job now request) = Pending" by (simp add: new_job_def)
next
  assume "reachable base s"
  then show "active_count (sys_jobs s) \<le> 1" using reachable_inv by (simp add: system_inv_def)
next
  assume "reachable base s \<and> active_count (sys_jobs s) = 1"
  then have "list_ex active (map snd (sys_jobs s))"
    using active_count_none [of "sys_jobs s"] by auto
  then show "pull request new_id now (sys_jobs s) =
        (Inl (HTTPException 409 ''Another download is already in progress. Please wait or cancel it.''),
         sys_jobs s)"
    by (simp add: pull_def)
qed

theorem single_active_job_witness:
  "reachable base_dir sys_running \<and> active_count (sys_jobs sys_running) = 1 \<and>
   list_ex active (map snd (sys_jobs sys_running)) \<and>
   pull req_padded ''job-2'' ''2024-01-01T00:00:05'' (sys_jobs sys_running) =
     (Inl (HTTPException 409 ''Another download is already in progress. Please wait or cancel it.''),
      sys_jobs sys_running) \<and>
   \<not> list_ex active (map snd (sys_jobs sys_failed)) \<and>
   pull req_padded ''job-2'' ''2024-01-01T00:00:05'' (sys_jobs sys_failed) =
     (Inr \<lparr>resp_job_id = ''job-2'', resp_status = ''pending'', resp_message = ''Download started.''\<rparr>,
      AList.update ''job-2'' (new_job ''2024-01-01T00:00:05'' req_padded) (sys_jobs sys_failed))"
proof -
  have a: "active_count (sys_jobs sys_running) = 1"
    by (simp add: active_count_def sys_running_def job_running_def new_job_def active_def)
  have b: "list_ex active (map snd (sys_jobs sys_running))"
    by (simp add: sys_running_def job_running_def new_job_def active_def)
  have c: "\<not> list_ex active (map snd (sys_jobs sys_failed))"
    by (simp add: sys_failed_def job_failed_def job_running_def new_job_def active_def)
  have p1: "pull req_padded ''job-2'' ''2024-01-01T00:00:05'' (sys_jobs sys_running) =
     (Inl (HTTPException 409 ''Another download is already in progress. Please wait or cancel it.''),
      sys_jobs sys_running)"
    using single_active_job [of "sys_jobs sys_running" req_padded "''job-2''" "''2024-01-01T00:00:05''",
        THEN conjunct1] b by (rule mp)
  have "pull req_padded ''job-2'' ''2024-01-01T00:00:05'' (sys_jobs sys_failed) =
     (Inr \<lparr>resp_job_id = ''job-2'', resp_status = ''pending'', resp_message = ''Download started.''\<rparr>,
      AList.update ''job-2'' (new_job ''2024-01-01T00:00:05'' req_padded) (sys_jobs sys_failed)) \<and>
      map_of (AList.update ''job-2'' (new_job ''2024-01-01T00:00:05'' req_padded) (sys_jobs sys_failed)) ''job-2''
        = Some (new_job ''2024-01-01T00:00:05'' req_padded) \<and>
      status (new_job ''2024-01-01T00:00:05'' req_padded) = Pending"
    using single_active_job [of "sys_jobs sys_failed" req_padded "''job-2''" "''2024-01-01T00:00:05''",
        THEN conjunct2, THEN conjunct1] c by (rule mp)
  then have p2: "pull req_padded ''job-2'' ''2024-01-01T00:00:05'' (sys_jobs sys_failed) =
     (Inr \<lparr>resp_job_id = ''job-2'', resp_status = ''pending'', resp_message = ''Download started.''\<rparr>,
      AList.update ''job-2'' (new_job ''2024-01-01T00:00:05'' req_padded) (sys_jobs sys_failed))"
    by (rule conjunct1)
  from reach_running a b p1 c p2 show ?thesis by (intro conjI)
qed

text \<open>
  C6. In every state the system can reach, one step takes the status of a job to
  itself, from \<open>pending\<close> to \<open>running\<close>, or from \<open>running\<close> to \<open>finished\<close> or \<open>failed\<close>, and
  to nothing else; so over any number of steps the status never moves back, \<open>running\<close>
  is not skipped in one step, and a \<open>finished\<close> or \<open>failed\<close> job keeps its status. The
  hook leaves the status alone.
\<close>

theorem status_monotone:
  "(reachable base s \<and> step base s s' \<and> map_of (sys_jobs s) j = Some m \<longrightarrow>
      (\<exists>m'. map_of (sys_jobs s') j = Some m' \<and> status_move (status m) (status m'))) \<and>
   (reachable base s \<and> (step base)\<^sup>*\<^sup>* s s' \<and> map_of (sys_jobs s) j = Some m \<longrightarrow>
      (\<exists>m'. map_of (sys_jobs s') j = Some m' \<and> status_rank (status m) \<le> status_rank (status m') \<and>
           ((status m = Finished \<or> status m = Failed) \<longrightarrow> status m' = status m))) \<and>
   (map_of jobs j = Some m \<and> hook j sdir fs d jobs = Inr jobs' \<longrightarrow>
      (\<exists>m'. map_of jobs' j = Some m' \<and> status m' = status m))"
proof (intro conjI impI)
  assume "reachable base s \<and> step base s s' \<and> map_of (sys_jobs s) j = Some m"
  then show "\<exists>m'. map_of (sys_jobs s') j = Some m' \<and> status_move (status m) (status m')"
    using step_status_move reachable_inv by blast
next
  assume "reachable base s \<and> (step base)\<^sup>*\<^sup>* s s' \<and> map_of (sys_jobs s) j = Some m"
  then show "\<exists>m'. map_of (sys_jobs s') j = Some m' \<and> status_rank (status m) \<le> status_rank (status m') \<and>
           ((status m = Finished \<or> status m = Failed) \<longrightarrow> status m' = status m)"
    using steps_status by blast
next
  assume "map_of jobs j = Some m \<and> hook j sdir fs d jobs = Inr jobs'"
  then obtain m' where "map_of jobs' j = Some m'" "same_outcome m m'" using hook_job by blast
  then show "\<exists>m'. map_of jobs' j = Some m' \<and> status m' = status m" by (simp add: same_outcome_def)
qed

theorem status_monotone_witness:
  "reachable base_dir sys_pending \<and> step base_dir sys_pending sys_running \<and>
   map_of (sys_jobs sys_pending) ''job-1'' = Some (new_job ''2024-01-01T00:00:00'' req_show) \<and>
   (\<exists>m'. map_of (sys_jobs sys_running) ''job-1'' = Some m' \<and>
        status_move (status (new_job ''2024-01-01T00:00:00'' req_show)) (status m')) \<and>
   (step base_dir)\<^sup>*\<^sup>* sys_pending sys_failed \<and>
   (\<exists>m'. map_of (sys_jobs sys_failed) ''job-1'' = Some m' \<and>
        status_rank (status (new_job ''2024-01-01T00:00:00'' req_show)) \<le> status_rank (status m'))"
proof -
  have a: "map_of (sys_jobs sys_pending) ''job-1'' = Some (new_job ''2024-01-01T00:00:00'' req_show)"
    by (simp add: sys_pending_def jobs_pending_def)
  have b: "(step base_dir)\<^sup>*\<^sup>* sys_pending sys_failed"
    using step_pending_running step_running_failed by auto
  have one: "\<exists>m'. map_of (sys_jobs sys_running) ''job-1'' = Some m' \<and>
        status_move (status (new_job ''2024-01-01T00:00:00'' req_show)) (status m')"
    using status_monotone [where base = base_dir and s = sys_pending and s' = sys_running
        and j = "''job-1''" and m = "new_job ''2024-01-01T00:00:00'' req_show", THEN conjunct1]
      conjI [OF reach_pending conjI [OF step_pending_running a]] by (rule mp)
  have "\<exists>m'. map_of (sys_jobs sys_failed) ''job-1'' = Some m' \<and>
        status_rank (status (new_job ''2024-01-01T00:00:00'' req_show)) \<le> status_rank (status m') \<and>
        ((status (new_job ''2024-01-01T00:00:00'' req_show) = Finished \<or>
          status (new_job ''2024-01-01T00:00:00'' req_show) = Failed) \<longrightarrow>
         status m' = status (new_job ''2024-01-01T00:00:00'' req_show))"
    using status_monotone [where base = base_dir and s = sys_pending and s' = sys_failed
        and j = "''job-1''" and m = "new_job ''2024-01-01T00:00:00'' req_show",
        THEN conjunct2, THEN conjunct1]
      conjI [OF reach_pending conjI [OF b a]] by (rule mp)
  then have many: "\<exists>m'. map_of (sys_jobs sys_failed) ''job-1'' = Some m' \<and>
        status_rank (status (new_job ''2024-01-01T00:00:00'' req_show)) \<le> status_rank (status m')"
    by blast
  from reach_pending step_pending_running a one b many show ?thesis by (intro conjI)
qed

text \<open>
  C7. In every state the system can reach, every record has \<open>result_path\<close> set exactly
  when its status is \<open>finished\<close>, and \<open>error\<close> set exactly when its status is \<open>failed\<close>.
\<close>

theorem outcome_fields:
  "reachable base s \<and> map_of (sys_jobs s) j = Some m \<longrightarrow>
     (result_path m \<noteq> None \<longleftrightarrow> status m = Finished) \<and> (error m \<noteq> None \<longleftrightarrow> status m = Failed)"
proof
  assume h: "reachable base s \<and> map_of (sys_jobs s) j = Some m"
  then have "system_inv s" using reachable_inv by blast
  then have "record_ok m" using h unfolding system_inv_def by blast
  then show "(result_path m \<noteq> None \<longleftrightarrow> status m = Finished) \<and> (error m \<noteq> None \<longleftrightarrow> status m = Failed)"
    by (simp add: record_ok_def)
qed

theorem outcome_fields_witness:
  "reachable base_dir sys_failed \<and> map_of (sys_jobs sys_failed) ''job-1'' = Some job_failed \<and>
   status job_failed = Failed \<and> error job_failed \<noteq> None \<and> result_path job_failed = None \<and>
   (result_path job_failed \<noteq> None \<longleftrightarrow> status job_failed = Finished) \<and>
   (error job_failed \<noteq> None \<longleftrightarrow> status job_failed = Failed)"
proof -
  have a: "map_of (sys_jobs sys_failed) ''job-1'' = Some job_failed" by (simp add: sys_failed_def)
  have b: "status job_failed = Failed" by (simp add: job_failed_def)
  from outcome_fields [of base_dir sys_failed "''job-1''" job_failed] reach_failed a b
  show ?thesis by auto
qed

end
